theory Spec2Isabelle
  imports Main "HOL-Library.Word" "HOL-Library.Sublist"
begin

section \<open>Data model of \<open>src/emulator/serialization.hpp\<close>\<close>

text \<open>
  Bytes are \<open>std::byte\<close>. Sizes, lengths and offsets are \<open>size_t\<close>, taken as the 64-bit
  unsigned type of the emulator's targets: they are natural numbers here, and every
  \<open>size_t\<close> addition or subtraction of the source is wrapped by \<open>size_t_of\<close>.
  The size of a \<open>std::vector\<close> or \<open>std::span\<close> is the length of the list that models it.
\<close>

type_synonym byte = "8 word"

definition size_t_of :: "nat \<Rightarrow> nat" where
  "size_t_of n = n mod 2 ^ 64"

text \<open>
  Every exception of the file is a \<open>std::runtime_error\<close>; the constructors name them by
  what they report:
  \<^item> \<open>BoundsError\<close>: "Out of bounds read from byte buffer";
  \<^item> \<open>FramingCorruptionError\<close>: "Reading from serialized buffer mismatches written data!";
  \<^item> \<open>BreakOffsetError\<close>: "Break offset reached!";
  \<^item> \<open>ConstructionError n\<close>: "Object construction failed. Missing factory for type: " followed by \<open>n\<close>;
  \<^item> \<open>UndefinedBehaviour\<close>: no exception, but a read outside the viewed memory, which
    C++ leaves undefined (reachable only when the \<open>size_t\<close> arithmetic of \<open>read_data\<close> wraps).
\<close>

datatype error =
    BoundsError
  | FramingCorruptionError
  | BreakOffsetError
  | ConstructionError string
  | UndefinedBehaviour

text \<open>
  A member function that may throw is a function from the object's state to a result
  (\<open>Inl\<close> the exception) and the state the object is left in.
\<close>

type_synonym ('s, 'a) op = "'s \<Rightarrow> (error + 'a) \<times> 's"

definition succeed :: "'a \<Rightarrow> ('s, 'a) op" where
  "succeed a s = (Inr a, s)"

definition and_then :: "('s, 'a) op \<Rightarrow> ('a \<Rightarrow> ('s, 'b) op) \<Rightarrow> ('s, 'b) op" where
  "and_then m f s = (case m s of (Inl e, s') \<Rightarrow> (Inl e, s') | (Inr a, s') \<Rightarrow> f a s')"

subsection \<open>The encoder\<close>

record buffer_serializer =
  s_buffer :: "byte list"
  s_break_offset :: "nat option"

definition new_serializer :: buffer_serializer where
  "new_serializer = \<lparr>s_buffer = [], s_break_offset = None\<rparr>"

text \<open>
  \<open>write_bytes\<close> is \<open>write(const void* buffer, size_t length)\<close>: \<open>data\<close> is the run of \<open>length\<close> bytes at
  \<open>buffer\<close>. The marker is \<open>static_cast<uint8_t>(length)\<close>, and \<open>check_size\<close> is 1.
\<close>

definition write_bytes :: "byte list \<Rightarrow> (buffer_serializer, unit) op" where
  "write_bytes data s =
     (let len = length data;
          old_size_remainder = (of_nat len :: byte);
          check_size = 1
      in if (case s_break_offset s of
               None \<Rightarrow> False
             | Some b \<Rightarrow> length (s_buffer s) \<le> b \<and>
                 size_t_of (size_t_of (length (s_buffer s) + len) + check_size) > b)
         then (Inl BreakOffsetError, s)
         else (Inr (), s\<lparr>s_buffer := (s_buffer s @ [old_size_remainder]) @ data\<rparr>))"

definition get_buffer :: "buffer_serializer \<Rightarrow> byte list" where
  "get_buffer s = s_buffer s"

definition move_buffer :: "buffer_serializer \<Rightarrow> byte list \<times> buffer_serializer" where
  "move_buffer s = (s_buffer s, s\<lparr>s_buffer := []\<rparr>)"


text \<open>\<open>write(const buffer_serializer& object)\<close>: the other encoder's buffer as one run.\<close>

definition write_serializer :: "buffer_serializer \<Rightarrow> (buffer_serializer, unit) op" where
  "write_serializer object s = write_bytes (get_buffer object) s"

text \<open>The loop of \<open>get_diff\<close>, from index \<open>i\<close> on, and what follows it.\<close>

function get_diff_from :: "byte list \<Rightarrow> byte list \<Rightarrow> nat \<Rightarrow> nat option" where
  "get_diff_from b1 b2 i =
     (if i < length b1 \<and> i < length b2
      then (if b1 ! i \<noteq> b2 ! i then Some i else get_diff_from b1 b2 (i + 1))
      else if length b1 \<noteq> length b2 then Some (min (length b1) (length b2))
      else None)"
  by pat_completeness auto
termination
  by (relation "measure (\<lambda>(b1, b2, i). length b1 - i)") auto

declare get_diff_from.simps [simp del]

definition get_diff :: "buffer_serializer \<Rightarrow> buffer_serializer \<Rightarrow> nat option" where
  "get_diff s other = get_diff_from (get_buffer s) (get_buffer other) 0"

subsection \<open>The decoder\<close>

text \<open>
  The fields are the source's \<open>offset_\<close>, \<open>buffer_\<close> (the borrowed view) and
  \<open>factories_\<close>; like the encoder's \<open>buffer_\<close> and \<open>break_offset_\<close> they carry a prefix
  for their class, since record fields share one name space. \<open>d_factories\<close> maps a
  type's identity (\<open>std::type_index\<close>, here the type's name) to the registered closure.
\<close>

record 'o buffer_deserializer =
  d_offset :: nat
  d_buffer :: "byte list"
  d_factories :: "string \<rightharpoonup> (unit \<Rightarrow> 'o)"

definition deserializer_of_bytes :: "byte list \<Rightarrow> 'o buffer_deserializer" where
  "deserializer_of_bytes buffer = \<lparr>d_offset = 0, d_buffer = buffer, d_factories = Map.empty\<rparr>"

definition deserializer_of :: "buffer_serializer \<Rightarrow> 'o buffer_deserializer" where
  "deserializer_of serializer = deserializer_of_bytes (get_buffer serializer)"

text \<open>
  \<open>read_data\<close>: the bounds check comes first, on wrapped \<open>size_t\<close> sums; then the marker
  at the cursor is compared with \<open>static_cast<uint8_t>(length)\<close>. Where wrapped sums let
  the bounds check pass although the marker or the run lies outside the source, the
  source reads outside the view: \<open>UndefinedBehaviour\<close>.
\<close>

definition read_data :: "nat \<Rightarrow> ('o buffer_deserializer, byte list) op" where
  "read_data len d =
     (let length_rest = (of_nat len :: byte);
          check_size = 1
      in if size_t_of (d_offset d + size_t_of (len + check_size)) > length (d_buffer d)
         then (Inl BoundsError, d)
         else if \<not> d_offset d < length (d_buffer d)
         then (Inl UndefinedBehaviour, d)
         else if d_buffer d ! d_offset d \<noteq> length_rest
         then (Inl FramingCorruptionError, d)
         else if d_offset d + check_size + len > length (d_buffer d)
         then (Inl UndefinedBehaviour, d)
         else (Inr (take len (drop (d_offset d + check_size) (d_buffer d))),
               d\<lparr>d_offset := d_offset d + check_size + len\<rparr>))"

definition get_remaining_size :: "'o buffer_deserializer \<Rightarrow> nat" where
  "get_remaining_size d = size_t_of (length (d_buffer d) + 2 ^ 64 - d_offset d)"

definition get_remaining_data :: "('o buffer_deserializer, byte list) op" where
  "get_remaining_data d = read_data (get_remaining_size d) d"

definition get_offset :: "'o buffer_deserializer \<Rightarrow> nat" where
  "get_offset d = d_offset d"

subsection \<open>Supported values\<close>

text \<open>
  The types the typed \<open>write<T>\<close> and \<open>read<T>\<close> of this file handle by themselves:
  \<^item> \<open>T_trivial name n dc\<close>: a trivially copyable type called \<open>name\<close> with \<open>sizeof = n\<close>,
    default constructible iff \<open>dc\<close>; a value is its object representation, \<open>n\<close> bytes;
  \<^item> \<open>T_bool\<close>: \<open>bool\<close>, by the explicit specialisations;
  \<^item> \<open>T_string w\<close>: \<open>std::basic_string<CharT>\<close> with \<open>sizeof(CharT) = w\<close>, by the explicit
    specialisations for \<open>std::string\<close> (\<open>w = 1\<close>), \<open>std::u16string\<close> (\<open>w = 2\<close>) and
    \<open>std::wstring\<close> (\<open>w = sizeof(wchar_t)\<close>); a value is the list of its character
    units, each an object representation of \<open>w\<close> bytes.
  None of them has a constructor from a decoder reference. Types with a member or free
  \<open>serialize\<close>/\<open>deserialize\<close>, or with such a constructor, run code that is not in
  this file and are not modelled.
\<close>

datatype elem_type = T_trivial string nat bool | T_bool | T_string nat

datatype elem = Trivial "byte list" | Boolean bool | String "byte list list"

fun has_type :: "elem_type \<Rightarrow> elem \<Rightarrow> bool" where
  "has_type (T_trivial name n dc) (Trivial obj) = (length obj = n)"
| "has_type T_bool (Boolean b) = True"
| "has_type (T_string w) (String str) = list_all (\<lambda>c. length c = w) str"
| "has_type _ _ = False"

text \<open>
  Object representations of the integers the file itself writes: little-endian, as on
  the x86-64 and AArch64 hosts of the emulator.
\<close>

fun le_bytes :: "nat \<Rightarrow> nat \<Rightarrow> byte list" where
  "le_bytes 0 v = []"
| "le_bytes (Suc k) v = of_nat (v mod 256) # le_bytes k (v div 256)"

fun le_value :: "byte list \<Rightarrow> nat" where
  "le_value [] = 0"
| "le_value (b # bs) = unat b + 256 * le_value bs"

definition uint64_repr :: "nat \<Rightarrow> byte list" where
  "uint64_repr n = le_bytes 8 n"

definition int32_repr :: "int \<Rightarrow> byte list" where
  "int32_repr i = le_bytes 4 (nat (i mod 2 ^ 32))"

subsection \<open>Typed and derived writers\<close>

text \<open>
  The third branch of \<open>write<T>\<close>: \<open>this->write(pointers.void_, sizeof(object))\<close>.
\<close>

definition write_trivially_copyable :: "byte list \<Rightarrow> (buffer_serializer, unit) op" where
  "write_trivially_copyable object = write_bytes object"

text \<open>The range-for loops of the derived writers; \<open>w\<close> is \<open>write<T>\<close> at the element type.\<close>

fun write_each :: "('a \<Rightarrow> (buffer_serializer, unit) op) \<Rightarrow> 'a list \<Rightarrow> (buffer_serializer, unit) op" where
  "write_each w [] = succeed ()"
| "write_each w (v # vs) = and_then (w v) (\<lambda>_. write_each w vs)"

definition write_span :: "('a \<Rightarrow> (buffer_serializer, unit) op) \<Rightarrow> 'a list \<Rightarrow> (buffer_serializer, unit) op" where
  "write_span w vec =
     and_then (write_trivially_copyable (uint64_repr (length vec))) (\<lambda>_. write_each w vec)"

definition write_string :: "byte list list \<Rightarrow> (buffer_serializer, unit) op" where
  "write_string str = write_span write_trivially_copyable str"

text \<open>
  \<open>write<T>(const T&)\<close> as the compiler resolves it for each supported type:
  the generic template's raw copy, \<open>write<bool>\<close> (which is \<open>write<uint8_t>(object ? 1 : 0)\<close>)
  and the string specialisations.
\<close>

fun write_typed :: "elem \<Rightarrow> (buffer_serializer, unit) op" where
  "write_typed (Trivial object) = write_trivially_copyable object"
| "write_typed (Boolean object) = write_trivially_copyable [if object then 1 else 0]"
| "write_typed (String object) = write_string object"

definition write_atomic :: "elem \<Rightarrow> (buffer_serializer, unit) op" where
  "write_atomic val = write_typed val"

definition write_optional :: "elem option \<Rightarrow> (buffer_serializer, unit) op" where
  "write_optional val =
     and_then (write_typed (Boolean (val \<noteq> None)))
       (\<lambda>_. case val of None \<Rightarrow> succeed () | Some v \<Rightarrow> write_typed v)"

definition write_vector :: "elem list \<Rightarrow> (buffer_serializer, unit) op" where
  "write_vector vec = write_span write_typed vec"

definition write_list :: "elem list \<Rightarrow> (buffer_serializer, unit) op" where
  "write_list vec =
     and_then (write_trivially_copyable (uint64_repr (length vec))) (\<lambda>_. write_each write_typed vec)"

text \<open>A map is given by its entries in the order its iterator yields them.\<close>

definition write_map :: "(elem \<times> elem) list \<Rightarrow> (buffer_serializer, unit) op" where
  "write_map m =
     and_then (write_trivially_copyable (uint64_repr (length m)))
       (\<lambda>_. write_each (\<lambda>entry. and_then (write_typed (fst entry)) (\<lambda>_. write_typed (snd entry))) m)"

subsection \<open>Construction, typed and derived readers\<close>

text \<open>
  What \<open>construct_object<T>\<close> asks of \<open>T\<close> at compile time: its name (\<open>typeid(T).name()\<close>,
  which also stands for its \<open>std::type_index\<close>), its constructor from a decoder reference
  if \<open>has_deserializer_constructor<T>\<close>, and its value-initialised instance if
  \<open>std::is_default_constructible_v<T>\<close>.
\<close>

record 'o type_traits =
  type_name :: string
  deserializer_constructor :: "('o buffer_deserializer \<Rightarrow> (error + 'o) \<times> 'o buffer_deserializer) option"
  default_constructed :: "'o option"

definition construct_object :: "'o type_traits \<Rightarrow> ('o buffer_deserializer, 'o) op" where
  "construct_object T d =
     (case deserializer_constructor T of
        Some ctor \<Rightarrow> ctor d
      | None \<Rightarrow>
          (case default_constructed T of
             Some object \<Rightarrow> (Inr object, d)
           | None \<Rightarrow>
               (case d_factories d (type_name T) of
                  None \<Rightarrow> (Inl (ConstructionError (type_name T)), d)
                | Some factory \<Rightarrow> (Inr (factory ()), d))))"

definition register_factory :: "'o type_traits \<Rightarrow> (unit \<Rightarrow> 'o) \<Rightarrow> 'o buffer_deserializer \<Rightarrow> 'o buffer_deserializer" where
  "register_factory T factory d = d\<lparr>d_factories := (d_factories d)(type_name T \<mapsto> factory)\<rparr>"

text \<open>
  \<open>read<T>()\<close>: construct, then fill with \<open>read(T&)\<close>, here \<open>fill\<close>, and return the object.
\<close>

definition read_object :: "'o type_traits \<Rightarrow> ('o \<Rightarrow> ('o buffer_deserializer, 'a) op) \<Rightarrow> ('o buffer_deserializer, 'a) op" where
  "read_object T fill = and_then (construct_object T) fill"

text \<open>\<open>read(void* data, size_t length)\<close>: the bytes copied to \<open>data\<close>.\<close>

definition read_bytes :: "nat \<Rightarrow> ('o buffer_deserializer, byte list) op" where
  "read_bytes len = and_then (read_data len) (\<lambda>span. succeed (take len span))"

fun traits_of :: "elem_type \<Rightarrow> elem type_traits" where
  "traits_of (T_trivial name n dc) =
     \<lparr>type_name = name, deserializer_constructor = None,
      default_constructed = (if dc then Some (Trivial (replicate n 0)) else None)\<rparr>"
| "traits_of T_bool =
     \<lparr>type_name = ''bool'', deserializer_constructor = None,
      default_constructed = Some (Boolean False)\<rparr>"
| "traits_of (T_string w) =
     \<lparr>type_name = ''basic_string'', deserializer_constructor = None,
      default_constructed = Some (String [])\<rparr>"

text \<open>\<open>read<T>()\<close> for a trivially copyable \<open>T\<close>: the object representation read.\<close>

definition read_raw :: "string \<Rightarrow> nat \<Rightarrow> bool \<Rightarrow> (elem buffer_deserializer, byte list) op" where
  "read_raw name n dc = read_object (traits_of (T_trivial name n dc)) (\<lambda>object. read_bytes n)"

definition read_uint64 :: "(elem buffer_deserializer, nat) op" where
  "read_uint64 = and_then (read_raw ''uint64_t'' 8 True) (\<lambda>object. succeed (le_value object))"

definition read_uint8 :: "(elem buffer_deserializer, nat) op" where
  "read_uint8 = and_then (read_raw ''uint8_t'' 1 True) (\<lambda>object. succeed (le_value object))"

text \<open>
  The counted loops of the derived readers: \<open>r\<close> reads one element and \<open>ins\<close> puts it
  into the result (\<open>emplace_back\<close>, \<open>push_back\<close> or \<open>emplace\<close>). The result starts
  empty (\<open>clear\<close>); \<open>reserve\<close> only allocates, and allocation is taken to succeed.
\<close>

fun read_loop :: "('s, 'a) op \<Rightarrow> ('r \<Rightarrow> 'a \<Rightarrow> 'r) \<Rightarrow> nat \<Rightarrow> 'r \<Rightarrow> ('s, 'r) op" where
  "read_loop r ins 0 result = succeed result"
| "read_loop r ins (Suc n) result = and_then r (\<lambda>x. read_loop r ins n (ins result x))"

definition emplace_back :: "'a list \<Rightarrow> 'a \<Rightarrow> 'a list" where
  "emplace_back result x = result @ [x]"

definition read_string :: "nat \<Rightarrow> (elem buffer_deserializer, byte list list) op" where
  "read_string w =
     and_then read_uint64 (\<lambda>size. read_loop (read_raw ''CharT'' w True) emplace_back size [])"

text \<open>\<open>read<T>(T& object)\<close> as resolved for each supported type, returning the object.\<close>

fun read_into :: "elem_type \<Rightarrow> elem \<Rightarrow> (elem buffer_deserializer, elem) op" where
  "read_into (T_trivial name n dc) object = and_then (read_bytes n) (\<lambda>b. succeed (Trivial b))"
| "read_into T_bool object = and_then read_uint8 (\<lambda>v. succeed (Boolean (v \<noteq> 0)))"
| "read_into (T_string w) object = and_then (read_string w) (\<lambda>str. succeed (String str))"

definition read_typed :: "elem_type \<Rightarrow> (elem buffer_deserializer, elem) op" where
  "read_typed T = read_object (traits_of T) (read_into T)"

definition read_atomic :: "elem_type \<Rightarrow> (elem buffer_deserializer, elem) op" where
  "read_atomic T = read_typed T"

definition read_optional :: "elem_type \<Rightarrow> (elem buffer_deserializer, elem option) op" where
  "read_optional T =
     and_then (read_typed T_bool)
       (\<lambda>flag. if flag = Boolean True
               then and_then (read_typed T) (\<lambda>v. succeed (Some v))
               else succeed None)"

text \<open>
  The overload \<open>read_optional(val, factory)\<close>: the value is made by \<open>factory\<close> and
  filled by \<open>read<T>(T&)\<close>.
\<close>

definition read_optional_factory :: "elem_type \<Rightarrow> (unit \<Rightarrow> elem) \<Rightarrow> (elem buffer_deserializer, elem option) op" where
  "read_optional_factory T factory =
     and_then (read_typed T_bool)
       (\<lambda>flag. if flag = Boolean True
               then and_then (read_into T (factory ())) (\<lambda>v. succeed (Some v))
               else succeed None)"

definition read_vector :: "elem_type \<Rightarrow> (elem buffer_deserializer, elem list) op" where
  "read_vector T = and_then read_uint64 (\<lambda>size. read_loop (read_typed T) emplace_back size [])"

definition read_list :: "elem_type \<Rightarrow> (elem buffer_deserializer, elem list) op" where
  "read_list T = and_then read_uint64 (\<lambda>size. read_loop (read_typed T) emplace_back size [])"

text \<open>\<open>map.emplace(key, value)\<close> inserts only where the key is absent.\<close>

definition emplace :: "('k \<rightharpoonup> 'v) \<Rightarrow> 'k \<times> 'v \<Rightarrow> ('k \<rightharpoonup> 'v)" where
  "emplace m entry = (case m (fst entry) of None \<Rightarrow> m(fst entry \<mapsto> snd entry) | Some _ \<Rightarrow> m)"

definition read_map :: "elem_type \<Rightarrow> elem_type \<Rightarrow> (elem buffer_deserializer, elem \<rightharpoonup> elem) op" where
  "read_map K V =
     and_then read_uint64
       (\<lambda>size. read_loop
          (and_then (read_typed K) (\<lambda>key. and_then (read_typed V) (\<lambda>value. succeed (key, value))))
          emplace size Map.empty)"

subsection \<open>The wire format, for the proofs\<close>

text \<open>
  The bytes each writer is expected to append: a frame is the marker byte and the run.
  These functions are compared with the writers below; no writer is defined by them.
\<close>

definition frame :: "byte list \<Rightarrow> byte list" where
  "frame data = of_nat (length data) # data"

fun wire_elem :: "elem \<Rightarrow> byte list" where
  "wire_elem (Trivial object) = frame object"
| "wire_elem (Boolean object) = frame [if object then 1 else 0]"
| "wire_elem (String object) = frame (uint64_repr (length object)) @ concat (map frame object)"

definition wire_optional :: "elem option \<Rightarrow> byte list" where
  "wire_optional val =
     (case val of None \<Rightarrow> frame [0] | Some v \<Rightarrow> frame [1] @ wire_elem v)"

definition wire_sequence :: "elem list \<Rightarrow> byte list" where
  "wire_sequence vec = frame (uint64_repr (length vec)) @ concat (map wire_elem vec)"

definition wire_entry :: "elem \<times> elem \<Rightarrow> byte list" where
  "wire_entry entry = wire_elem (fst entry) @ wire_elem (snd entry)"

definition wire_map :: "(elem \<times> elem) list \<Rightarrow> byte list" where
  "wire_map m = frame (uint64_repr (length m)) @ concat (map wire_entry m)"

text \<open>
  The break-offset test of \<open>write\<close> cannot fire: no offset is set, or the buffer is
  already past it.
\<close>

definition inactive :: "buffer_serializer \<Rightarrow> bool" where
  "inactive s = (case s_break_offset s of None \<Rightarrow> True | Some b \<Rightarrow> b < length (s_buffer s))"

text \<open>
  \<open>appends w bs\<close>: the writer \<open>w\<close> either appends exactly \<open>bs\<close>, or stops at the break
  offset having appended only; and it does append \<open>bs\<close> where the break offset is inactive.
\<close>

definition appends :: "(buffer_serializer, unit) op \<Rightarrow> byte list \<Rightarrow> bool" where
  "appends w bs \<longleftrightarrow>
     (\<forall>s. (inactive s \<longrightarrow> w s = (Inr (), s\<lparr>s_buffer := s_buffer s @ bs\<rparr>)) \<and>
          (w s = (Inr (), s\<lparr>s_buffer := s_buffer s @ bs\<rparr>) \<or>
           (\<exists>bs'. w s = (Inl BreakOffsetError, s\<lparr>s_buffer := s_buffer s @ bs'\<rparr>))))"

text \<open>
  The decoder can construct the type: it is default constructible, or a factory is
  registered under its name.
\<close>

fun constructible :: "elem buffer_deserializer \<Rightarrow> elem_type \<Rightarrow> bool" where
  "constructible d (T_trivial name n dc) = (dc \<or> d_factories d name \<noteq> None)"
| "constructible d T = True"

section \<open>Properties\<close>

subsection \<open>Sequencing\<close>

lemma and_then_Inr [simp]: "m s = (Inr a, s') \<Longrightarrow> and_then m f s = f a s'"
  by (simp add: and_then_def)

lemma and_then_Inl [simp]: "m s = (Inl e, s') \<Longrightarrow> and_then m f s = (Inl e, s')"
  by (simp add: and_then_def)

lemma succeed_apply: "succeed a s = (Inr a, s)"
  by (simp add: succeed_def)

subsection \<open>What the writers append\<close>

lemma inactive_append: "inactive s \<Longrightarrow> inactive (s\<lparr>s_buffer := s_buffer s @ bs\<rparr>)"
  by (auto simp add: inactive_def split: option.splits)

lemma appends_write_bytes: "appends (write_bytes data) (frame data)"
proof -
  have "\<exists>bs'. s = s\<lparr>s_buffer := s_buffer s @ bs'\<rparr>" for s :: buffer_serializer
    by (rule exI [of _ "[]"]) simp
  then show ?thesis
    by (auto simp add: appends_def write_bytes_def inactive_def frame_def Let_def
        split: option.splits)
qed

lemma appends_succeed: "appends (succeed ()) []"
  by (simp add: appends_def succeed_def)

lemma appends_inactive:
  "appends w bs \<Longrightarrow> inactive s \<Longrightarrow> w s = (Inr (), s\<lparr>s_buffer := s_buffer s @ bs\<rparr>)"
  by (simp add: appends_def)

lemma appends_cases:
  "appends w bs \<Longrightarrow>
   w s = (Inr (), s\<lparr>s_buffer := s_buffer s @ bs\<rparr>) \<or>
   (\<exists>bs'. w s = (Inl BreakOffsetError, s\<lparr>s_buffer := s_buffer s @ bs'\<rparr>))"
  by (simp add: appends_def)

lemma appends_and_then:
  assumes m: "appends m a" and f: "\<And>u. appends (f u) b"
  shows "appends (and_then m f) (a @ b)"
  unfolding appends_def
proof (intro allI conjI impI)
  fix s :: buffer_serializer
  let ?s1 = "s\<lparr>s_buffer := s_buffer s @ a\<rparr>"
  have s2: "?s1\<lparr>s_buffer := s_buffer ?s1 @ bs\<rparr> = s\<lparr>s_buffer := s_buffer s @ a @ bs\<rparr>" for bs
    by simp
  {
    assume i: "inactive s"
    then have "m s = (Inr (), ?s1)" using m by (rule appends_inactive [rotated])
    moreover have "f () ?s1 = (Inr (), ?s1\<lparr>s_buffer := s_buffer ?s1 @ b\<rparr>)"
      using f [of "()"] inactive_append [OF i, of a] by (rule appends_inactive)
    ultimately show "and_then m f s = (Inr (), s\<lparr>s_buffer := s_buffer s @ a @ b\<rparr>)"
      by (simp add: s2)
  }
  from m have "m s = (Inr (), ?s1) \<or> (\<exists>bs'. m s = (Inl BreakOffsetError, s\<lparr>s_buffer := s_buffer s @ bs'\<rparr>))"
    by (rule appends_cases)
  then show "and_then m f s = (Inr (), s\<lparr>s_buffer := s_buffer s @ a @ b\<rparr>) \<or>
        (\<exists>bs'. and_then m f s = (Inl BreakOffsetError, s\<lparr>s_buffer := s_buffer s @ bs'\<rparr>))"
  proof
    assume ok: "m s = (Inr (), ?s1)"
    from f [of "()"] have "f () ?s1 = (Inr (), ?s1\<lparr>s_buffer := s_buffer ?s1 @ b\<rparr>) \<or>
        (\<exists>bs'. f () ?s1 = (Inl BreakOffsetError, ?s1\<lparr>s_buffer := s_buffer ?s1 @ bs'\<rparr>))"
      by (rule appends_cases)
    then show ?thesis
    proof
      assume "f () ?s1 = (Inr (), ?s1\<lparr>s_buffer := s_buffer ?s1 @ b\<rparr>)"
      with ok show ?thesis by (simp add: s2)
    next
      assume "\<exists>bs'. f () ?s1 = (Inl BreakOffsetError, ?s1\<lparr>s_buffer := s_buffer ?s1 @ bs'\<rparr>)"
      then obtain bs' where "f () ?s1 = (Inl BreakOffsetError, s\<lparr>s_buffer := s_buffer s @ a @ bs'\<rparr>)"
        by (auto simp add: s2)
      with ok have "and_then m f s = (Inl BreakOffsetError, s\<lparr>s_buffer := s_buffer s @ (a @ bs')\<rparr>)"
        by simp
      then show ?thesis by blast
    qed
  next
    assume "\<exists>bs'. m s = (Inl BreakOffsetError, s\<lparr>s_buffer := s_buffer s @ bs'\<rparr>)"
    then obtain bs' where "m s = (Inl BreakOffsetError, s\<lparr>s_buffer := s_buffer s @ bs'\<rparr>)" ..
    then have "and_then m f s = (Inl BreakOffsetError, s\<lparr>s_buffer := s_buffer s @ bs'\<rparr>)" by simp
    then show ?thesis by blast
  qed
qed

lemma appends_write_each:
  assumes "\<And>x. x \<in> set xs \<Longrightarrow> appends (w x) (wire x)"
  shows "appends (write_each w xs) (concat (map wire xs))"
  using assms
proof (induction xs)
  case Nil
  show ?case by (simp add: appends_succeed)
next
  case (Cons x xs)
  have "appends (and_then (w x) (\<lambda>_. write_each w xs)) (wire x @ concat (map wire xs))"
    by (rule appends_and_then) (simp_all add: Cons)
  then show ?case by simp
qed

lemma appends_write_trivially_copyable: "appends (write_trivially_copyable object) (frame object)"
  by (simp add: write_trivially_copyable_def appends_write_bytes)

lemma appends_write_span:
  assumes "\<And>x. x \<in> set xs \<Longrightarrow> appends (w x) (wire x)"
  shows "appends (write_span w xs) (frame (uint64_repr (length xs)) @ concat (map wire xs))"
  unfolding write_span_def
  by (rule appends_and_then) (simp_all add: appends_write_trivially_copyable appends_write_each assms)

lemma appends_write_typed: "appends (write_typed v) (wire_elem v)"
proof (cases v)
  case (String str)
  then show ?thesis
    by (simp add: write_string_def appends_write_span appends_write_trivially_copyable)
qed (simp_all add: appends_write_trivially_copyable)

lemma appends_write_optional: "appends (write_optional val) (wire_optional val)"
proof (cases val)
  case None
  have "appends (write_optional None) (frame [0] @ [])"
    unfolding write_optional_def
    by (rule appends_and_then) (use appends_write_typed [of "Boolean False"] in \<open>simp_all add: appends_succeed\<close>)
  with None show ?thesis by (simp add: wire_optional_def)
next
  case (Some v)
  have "appends (write_optional (Some v)) (frame [1] @ wire_elem v)"
    unfolding write_optional_def
    by (rule appends_and_then) (use appends_write_typed [of "Boolean True"] in \<open>simp_all add: appends_write_typed\<close>)
  with Some show ?thesis by (simp add: wire_optional_def)
qed

lemma appends_write_vector: "appends (write_vector vec) (wire_sequence vec)"
  by (simp add: write_vector_def wire_sequence_def appends_write_span appends_write_typed)

lemma appends_write_list: "appends (write_list vec) (wire_sequence vec)"
  unfolding write_list_def wire_sequence_def
  by (rule appends_and_then) (simp_all add: appends_write_trivially_copyable appends_write_each appends_write_typed)

lemma appends_write_entry:
  "appends (and_then (write_typed (fst entry)) (\<lambda>_. write_typed (snd entry))) (wire_entry entry)"
  unfolding wire_entry_def by (rule appends_and_then) (simp_all add: appends_write_typed)

lemma appends_write_map: "appends (write_map m) (wire_map m)"
  unfolding write_map_def wire_map_def
  by (rule appends_and_then)
     (simp_all add: appends_write_trivially_copyable appends_write_each appends_write_entry)

lemma appends_write_atomic: "appends (write_atomic v) (wire_elem v)"
  by (simp add: write_atomic_def appends_write_typed)

lemma appends_write_serializer: "appends (write_serializer object) (frame (get_buffer object))"
  using appends_write_bytes [of "get_buffer object"]
  by (simp add: appends_def write_serializer_def)

lemma appends_prefix: "appends w bs \<Longrightarrow> prefix (s_buffer s) (s_buffer (snd (w s)))"
proof -
  assume "appends w bs"
  then have "w s = (Inr (), s\<lparr>s_buffer := s_buffer s @ bs\<rparr>) \<or>
      (\<exists>bs'. w s = (Inl BreakOffsetError, s\<lparr>s_buffer := s_buffer s @ bs'\<rparr>))"
    by (rule appends_cases)
  then show ?thesis by auto
qed

lemma appends_success:
  "appends w bs \<Longrightarrow> w s = (Inr (), s') \<Longrightarrow> s' = s\<lparr>s_buffer := s_buffer s @ bs\<rparr>"
  using appends_cases [of w bs s] by auto

lemma inactive_write:
  assumes "appends w bs" and "inactive s"
  shows "fst (w s) = Inr () \<and> w s = (Inr (), snd (w s))"
  using appends_inactive [OF assms] by simp



subsection \<open>The break offset\<close>

text \<open>
  C4. On an encoder with break offset \<open>B\<close> and a buffer of at most \<open>B\<close> bytes, a primitive
  write of \<open>data\<close> that would end past \<open>B\<close> (the marker byte and the run counted) fails
  with \<open>BreakOffsetError\<close> and leaves the encoder as it was, buffer included; a write
  that ends at or before \<open>B\<close>, so also exactly at \<open>B\<close>, succeeds and appends the frame.
  The buffer then still is at most \<open>B\<close> bytes long, so the first write of a sequence to
  cross \<open>B\<close> is the first to fail. The third premise says the \<open>size_t\<close> sum of the test
  does not wrap, which holds for every buffer and run a 64-bit address space can hold.
\<close>

theorem write_break_offset:
  assumes "s_break_offset s = Some B"
    and "length (s_buffer s) \<le> B"
    and "length (s_buffer s) + length data + 1 < 2 ^ 64"
  shows "(B < length (s_buffer s) + 1 + length data \<longrightarrow>
            write_bytes data s = (Inl BreakOffsetError, s)) \<and>
         (length (s_buffer s) + 1 + length data \<le> B \<longrightarrow>
            write_bytes data s =
              (Inr (), s\<lparr>s_buffer := s_buffer s @ of_nat (length data) # data\<rparr>))"
proof -
  have "size_t_of (size_t_of (length (s_buffer s) + length data) + 1) =
        length (s_buffer s) + length data + 1"
    using assms(3) by (simp add: size_t_of_def)
  then show ?thesis
    using assms(1,2) by (auto simp add: write_bytes_def Let_def)
qed

theorem write_break_offset_witness:
  "write_bytes [1] \<lparr>s_buffer = [4, 42, 0, 0, 0], s_break_offset = Some 5\<rparr> =
     (Inl BreakOffsetError, \<lparr>s_buffer = [4, 42, 0, 0, 0], s_break_offset = Some 5\<rparr>) \<and>
   write_bytes [42, 0, 0, 0] \<lparr>s_buffer = [], s_break_offset = Some 5\<rparr> =
     (Inr (), \<lparr>s_buffer = [4, 42, 0, 0, 0], s_break_offset = Some 5\<rparr>)"
proof -
  let ?a = "\<lparr>s_buffer = [4, 42, 0, 0, 0], s_break_offset = Some 5\<rparr>"
  let ?b = "\<lparr>s_buffer = [], s_break_offset = Some (5::nat)\<rparr>"
  have a1: "s_break_offset ?a = Some 5" and b1: "s_break_offset ?b = Some 5" by simp_all
  have a2: "length (s_buffer ?a) \<le> 5" and b2: "length (s_buffer ?b) \<le> 5" by simp_all
  have a3: "length (s_buffer ?a) + length [1::byte] + 1 < 2 ^ 64"
    and b3: "length (s_buffer ?b) + length [42, 0, 0, 0::byte] + 1 < 2 ^ 64" by simp_all
  show ?thesis
    using write_break_offset [OF a1 a2 a3] write_break_offset [OF b1 b2 b3] by simp
qed



subsection \<open>Append only\<close>

text \<open>
  C9. Whatever a write operation does, complete or throw, the buffer before it is a
  prefix of the buffer after it: for the primitive write, the embedding of another
  encoder, the typed write, and the derived writers for atomics, optionals, spans,
  vectors, lists, strings and maps.
\<close>

theorem append_only:
  "prefix (get_buffer s) (get_buffer (snd (write_bytes data s))) \<and>
   prefix (get_buffer s) (get_buffer (snd (write_serializer other s))) \<and>
   prefix (get_buffer s) (get_buffer (snd (write_typed v s))) \<and>
   prefix (get_buffer s) (get_buffer (snd (write_atomic v s))) \<and>
   prefix (get_buffer s) (get_buffer (snd (write_optional val s))) \<and>
   prefix (get_buffer s) (get_buffer (snd (write_span write_typed vec s))) \<and>
   prefix (get_buffer s) (get_buffer (snd (write_vector vec s))) \<and>
   prefix (get_buffer s) (get_buffer (snd (write_list vec s))) \<and>
   prefix (get_buffer s) (get_buffer (snd (write_string str s))) \<and>
   prefix (get_buffer s) (get_buffer (snd (write_map m s)))"
  unfolding get_buffer_def
  by (intro conjI appends_prefix [OF appends_write_bytes] appends_prefix [OF appends_write_serializer]
      appends_prefix [OF appends_write_typed] appends_prefix [OF appends_write_atomic]
      appends_prefix [OF appends_write_optional] appends_prefix [OF appends_write_vector]
      appends_prefix [OF appends_write_vector [unfolded write_vector_def]]
      appends_prefix [OF appends_write_list] appends_prefix [OF appends_write_map]
      appends_prefix [OF appends_write_typed [of "String str", simplified]])

subsection \<open>The primitive read\<close>

lemma size_t_of_small: "n < 2 ^ 64 \<Longrightarrow> size_t_of n = n"
  by (simp add: size_t_of_def)

lemma read_data_no_wrap:
  assumes "d_offset d + len + 1 < 2 ^ 64"
  shows "read_data len d =
     (if length (d_buffer d) < d_offset d + 1 + len then (Inl BoundsError, d)
      else if d_buffer d ! d_offset d \<noteq> of_nat len then (Inl FramingCorruptionError, d)
      else (Inr (take len (drop (d_offset d + 1) (d_buffer d))),
            d\<lparr>d_offset := d_offset d + 1 + len\<rparr>))"
proof -
  have "len + 1 < 2 ^ 64" using assms by arith
  then have "size_t_of (len + 1) = len + 1" by (rule size_t_of_small)
  moreover have "size_t_of (d_offset d + (len + 1)) = d_offset d + (len + 1)"
    using assms by (intro size_t_of_small) arith
  ultimately have w: "size_t_of (d_offset d + size_t_of (len + 1)) = d_offset d + 1 + len"
    by (simp only: add.commute add.left_commute)
  show ?thesis
    unfolding read_data_def Let_def w by auto
qed

lemma read_data_frame:
  assumes "d_buffer d = pre @ frame data @ post" and "d_offset d = length pre"
    and "length (d_buffer d) < 2 ^ 64"
  shows "read_data (length data) d = (Inr data, d\<lparr>d_offset := length pre + length (frame data)\<rparr>)"
proof -
  have "d_offset d + length data + 1 < 2 ^ 64"
    using assms by (simp add: frame_def)
  then show ?thesis
    by (simp add: read_data_no_wrap assms(1,2) frame_def nth_append)
qed

text \<open>
  C3, as the source has it. The claim puts the marker test before the bounds test; the
  source tests the bounds first, so that the marker byte it then reads lies inside the
  source. Where the \<open>size_t\<close> sums do not wrap: \<open>read_data\<close> throws \<open>BoundsError\<close> when
  fewer than \<open>1 + len\<close> bytes remain at the cursor, whatever the marker byte is;
  otherwise it throws \<open>FramingCorruptionError\<close> when the byte at the cursor differs from
  \<open>len mod 256\<close>; otherwise it returns the \<open>len\<close> bytes after the marker and moves the
  cursor past them. A failed read leaves the decoder as it was.
\<close>

theorem read_data_bounds_then_marker:
  assumes "d_offset d + len + 1 < 2 ^ 64"
  shows "(length (d_buffer d) < d_offset d + 1 + len \<longrightarrow>
            read_data len d = (Inl BoundsError, d)) \<and>
         (d_offset d + 1 + len \<le> length (d_buffer d) \<and> d_buffer d ! d_offset d \<noteq> of_nat len \<longrightarrow>
            read_data len d = (Inl FramingCorruptionError, d)) \<and>
         (d_offset d + 1 + len \<le> length (d_buffer d) \<and> d_buffer d ! d_offset d = of_nat len \<longrightarrow>
            read_data len d =
              (Inr (take len (drop (d_offset d + 1) (d_buffer d))),
               d\<lparr>d_offset := d_offset d + 1 + len\<rparr>))"
  by (simp add: read_data_no_wrap [OF assms])

theorem read_data_bounds_then_marker_witness:
  "read_data 4 \<lparr>d_offset = 0, d_buffer = [5, 0], d_factories = (Map.empty :: string \<rightharpoonup> (unit \<Rightarrow> elem))\<rparr> =
     (Inl BoundsError, \<lparr>d_offset = 0, d_buffer = [5, 0], d_factories = Map.empty\<rparr>) \<and>
   read_data 1 \<lparr>d_offset = 0, d_buffer = [5, 0], d_factories = (Map.empty :: string \<rightharpoonup> (unit \<Rightarrow> elem))\<rparr> =
     (Inl FramingCorruptionError, \<lparr>d_offset = 0, d_buffer = [5, 0], d_factories = Map.empty\<rparr>) \<and>
   read_data 1 \<lparr>d_offset = 0, d_buffer = [1, 9], d_factories = (Map.empty :: string \<rightharpoonup> (unit \<Rightarrow> elem))\<rparr> =
     (Inr [9], \<lparr>d_offset = 2, d_buffer = [1, 9], d_factories = Map.empty\<rparr>)"
proof -
  let ?a = "\<lparr>d_offset = 0, d_buffer = [5, 0], d_factories = (Map.empty :: string \<rightharpoonup> (unit \<Rightarrow> elem))\<rparr>"
  let ?b = "\<lparr>d_offset = 0, d_buffer = [1, 9], d_factories = (Map.empty :: string \<rightharpoonup> (unit \<Rightarrow> elem))\<rparr>"
  have a4: "d_offset ?a + 4 + 1 < 2 ^ 64" and a1: "d_offset ?a + 1 + 1 < 2 ^ 64"
    and b1: "d_offset ?b + 1 + 1 < 2 ^ 64" by simp_all
  show ?thesis
    using read_data_bounds_then_marker [OF a4] read_data_bounds_then_marker [OF a1]
      read_data_bounds_then_marker [OF b1]
    by simp
qed

text \<open>
  The claim as stated fails: on the two-byte source \<open>[5, 0]\<close>, a read of length 4 finds
  a marker that is not 4 and too few bytes, and the error is \<open>BoundsError\<close>.
\<close>

theorem read_data_marker_first_counterexample:
  "d_buffer \<lparr>d_offset = 0, d_buffer = [5, 0], d_factories = (Map.empty :: string \<rightharpoonup> (unit \<Rightarrow> elem))\<rparr> ! 0
     \<noteq> (of_nat 4 :: byte) \<and>
   fst (read_data 4 \<lparr>d_offset = 0, d_buffer = [5, 0], d_factories = (Map.empty :: string \<rightharpoonup> (unit \<Rightarrow> elem))\<rparr>)
     \<noteq> Inl FramingCorruptionError \<and>
   fst (read_data 4 \<lparr>d_offset = 0, d_buffer = [5, 0], d_factories = (Map.empty :: string \<rightharpoonup> (unit \<Rightarrow> elem))\<rparr>)
     = Inl BoundsError"
  by (simp add: read_data_def size_t_of_def)

text \<open>
  C5. Take the buffer after a successful primitive write of \<open>data\<close>, and a decoder whose
  cursor stands at the frame just written. With the frame's marker byte replaced by any
  byte other than \<open>length data mod 256\<close>, \<open>read_data (length data)\<close> throws
  \<open>FramingCorruptionError\<close>; with the buffer cut to any \<open>k\<close> bytes short of its full
  length, it throws \<open>BoundsError\<close>. (Five bytes written and three kept is the instance
  of the witness.)
\<close>

theorem framing_detection:
  assumes "write_bytes data s = (Inr (), s')" and "length (get_buffer s') < 2 ^ 64"
  shows "(marker \<noteq> of_nat (length data) \<longrightarrow>
            read_data (length data)
              \<lparr>d_offset = length (get_buffer s),
               d_buffer = (get_buffer s')[length (get_buffer s) := marker], d_factories = F\<rparr> =
            (Inl FramingCorruptionError,
              \<lparr>d_offset = length (get_buffer s),
               d_buffer = (get_buffer s')[length (get_buffer s) := marker], d_factories = F\<rparr>)) \<and>
         (k < length (get_buffer s') \<longrightarrow>
            read_data (length data)
              \<lparr>d_offset = length (get_buffer s), d_buffer = take k (get_buffer s'), d_factories = F\<rparr> =
            (Inl BoundsError,
              \<lparr>d_offset = length (get_buffer s), d_buffer = take k (get_buffer s'), d_factories = F\<rparr>))"
proof -
  have s': "s_buffer s' = s_buffer s @ of_nat (length data) # data"
    using appends_success [OF appends_write_bytes assms(1)] by (simp add: frame_def)
  have n: "length (s_buffer s) + length data + 1 < 2 ^ 64"
    using assms(2) by (simp add: s' get_buffer_def)
  have "length (take k (s_buffer s')) < length (s_buffer s) + 1 + length data"
    if "k < length (s_buffer s')"
    using that by (simp add: s')
  then show ?thesis
    using n by (simp add: read_data_no_wrap get_buffer_def) (simp add: s' nth_append)
qed

theorem framing_detection_witness:
  "read_data 4 \<lparr>d_offset = 0, d_buffer = [5, 42, 0, 0, 0],
       d_factories = (Map.empty :: string \<rightharpoonup> (unit \<Rightarrow> elem))\<rparr> =
     (Inl FramingCorruptionError, \<lparr>d_offset = 0, d_buffer = [5, 42, 0, 0, 0], d_factories = Map.empty\<rparr>) \<and>
   read_data 4 \<lparr>d_offset = 0, d_buffer = [4, 42, 0],
       d_factories = (Map.empty :: string \<rightharpoonup> (unit \<Rightarrow> elem))\<rparr> =
     (Inl BoundsError, \<lparr>d_offset = 0, d_buffer = [4, 42, 0], d_factories = Map.empty\<rparr>)"
proof -
  let ?s' = "\<lparr>s_buffer = [4, 42, 0, 0, 0], s_break_offset = None\<rparr>"
  have w: "write_bytes [42, 0, 0, 0] new_serializer = (Inr (), ?s')"
    by (simp add: write_bytes_def new_serializer_def)
  have n: "length (get_buffer ?s') < 2 ^ 64" by (simp add: get_buffer_def)
  show ?thesis
    using framing_detection [OF w n, where marker = 5 and k = 3
        and F = "Map.empty :: string \<rightharpoonup> (unit \<Rightarrow> elem)"]
    by (simp add: get_buffer_def new_serializer_def eval_nat_numeral)
qed

subsection \<open>The remaining data\<close>

text \<open>
  \<open>get_remaining_data\<close> asks \<open>read_data\<close> for as many bytes as remain, and \<open>read_data\<close>
  wants one byte more than it is asked for, the marker: the bounds test fails on every
  decoder.
\<close>

lemma wrap_remaining:
  fixes M :: nat
  assumes "n + 1 < M" and "c < M"
  shows "(c + (((n + M - c) mod M) + 1) mod M) mod M = n + 1"
proof (cases "c \<le> n")
  case True
  then have e: "n + M - c = (n - c) + M" by arith
  have "(n + M - c) mod M = (n - c) mod M" unfolding e by (rule mod_add_self2)
  also have "\<dots> = n - c" using assms(1) by (intro mod_less) arith
  finally have r: "(n + M - c) mod M = n - c" .
  have "(n - c + 1) mod M = n - c + 1" using assms(1) by (intro mod_less) arith
  moreover have "c + (n - c + 1) = n + 1" using True by arith
  moreover have "(n + 1) mod M = n + 1" using assms(1) by (intro mod_less)
  ultimately show ?thesis unfolding r by (simp only:)
next
  case False
  have r: "(n + M - c) mod M = n + M - c" using assms False by (intro mod_less) arith
  show ?thesis
  proof (cases "c = n + 1")
    case True
    have "n + M - c + 1 = M" using True assms by arith
    then have "(n + M - c + 1) mod M = 0" by (simp only: mod_self)
    moreover have "(c + 0) mod M = n + 1" using True assms by (simp only: add_0_right mod_less)
    ultimately show ?thesis unfolding r by (simp only:)
  next
    case False
    with \<open>\<not> c \<le> n\<close> assms have lt: "n + M - c + 1 < M" by arith
    have "(n + M - c + 1) mod M = n + M - c + 1" using lt by (rule mod_less)
    moreover have "c + (n + M - c + 1) = (n + 1) + M" using assms \<open>\<not> c \<le> n\<close> by arith
    moreover have "((n + 1) + M) mod M = (n + 1) mod M" by (rule mod_add_self2)
    moreover have "(n + 1) mod M = n + 1" using assms(1) by (intro mod_less)
    ultimately show ?thesis unfolding r by (simp only:)
  qed
qed

lemma get_remaining_data_throws:
  assumes "length (d_buffer d) + 1 < 2 ^ 64" and "d_offset d < 2 ^ 64"
  shows "get_remaining_data d = (Inl BoundsError, d)"
proof -
  have "size_t_of (d_offset d + size_t_of (get_remaining_size d + 1)) = length (d_buffer d) + 1"
    unfolding size_t_of_def get_remaining_size_def
    by (rule wrap_remaining [OF assms])
  then show ?thesis
    by (simp add: get_remaining_data_def read_data_def Let_def)
qed

text \<open>
  C2. The claim says \<open>get_remaining_data\<close> returns the remaining bytes; on the
  three-byte source \<open>[2, 170, 187]\<close> at cursor 0 (a frame of two bytes, as the encoder
  writes it) the source throws \<open>BoundsError\<close> and the cursor stays at 0.
\<close>

theorem get_remaining_data_fails:
  "get_remaining_data \<lparr>d_offset = 0, d_buffer = [2, 170, 187], d_factories = Map.empty\<rparr> =
     (Inl BoundsError, \<lparr>d_offset = 0, d_buffer = [2, 170, 187], d_factories = Map.empty\<rparr>)"
  by (simp add: get_remaining_data_def get_remaining_size_def read_data_def size_t_of_def)

subsection \<open>The difference of two buffers\<close>

lemma get_diff_from_first:
  assumes "k < length b1" and "k < length b2" and "b1 ! k \<noteq> b2 ! k"
    and "i \<le> k" and "\<And>j. i \<le> j \<Longrightarrow> j < k \<Longrightarrow> b1 ! j = b2 ! j"
  shows "get_diff_from b1 b2 i = Some k"
  using assms(4,5)
proof (induction "k - i" arbitrary: i)
  case 0
  then have "i = k" by simp
  then show ?case using assms(1-3) by (simp add: get_diff_from.simps)
next
  case (Suc n)
  then have lt: "i < k" by arith
  then have "b1 ! i = b2 ! i" using Suc.prems by simp
  moreover have "get_diff_from b1 b2 (i + 1) = Some k"
    using Suc.hyps Suc.prems lt by (intro Suc.hyps(1)) auto
  ultimately show ?case
    using lt assms(1,2) by (subst get_diff_from.simps) simp
qed

lemma get_diff_from_agree:
  assumes "i \<le> min (length b1) (length b2)"
    and "\<And>j. i \<le> j \<Longrightarrow> j < min (length b1) (length b2) \<Longrightarrow> b1 ! j = b2 ! j"
  shows "get_diff_from b1 b2 i =
     (if length b1 \<noteq> length b2 then Some (min (length b1) (length b2)) else None)"
  using assms
proof (induction "min (length b1) (length b2) - i" arbitrary: i)
  case 0
  then have "\<not> (i < length b1 \<and> i < length b2)" by auto
  then show ?case by (subst get_diff_from.simps) simp
next
  case (Suc n)
  then have lt: "i < min (length b1) (length b2)" by arith
  then have "b1 ! i = b2 ! i" using Suc.prems by simp
  moreover have "get_diff_from b1 b2 (i + 1) =
      (if length b1 \<noteq> length b2 then Some (min (length b1) (length b2)) else None)"
    using Suc.hyps Suc.prems lt by (intro Suc.hyps(1)) auto
  ultimately show ?case
    using lt by (subst get_diff_from.simps) simp
qed

lemma get_diff_from_None:
  assumes "get_diff_from b1 b2 0 = None"
  shows "b1 = b2"
proof (rule ccontr)
  assume ne: "b1 \<noteq> b2"
  show False
  proof (cases "\<exists>k. k < length b1 \<and> k < length b2 \<and> b1 ! k \<noteq> b2 ! k")
    case True
    define k where "k = (LEAST k. k < length b1 \<and> k < length b2 \<and> b1 ! k \<noteq> b2 ! k)"
    have k: "k < length b1 \<and> k < length b2 \<and> b1 ! k \<noteq> b2 ! k"
      unfolding k_def using True by (rule LeastI_ex)
    have "b1 ! j = b2 ! j" if "j < k" for j
      using not_less_Least [of j "\<lambda>k. k < length b1 \<and> k < length b2 \<and> b1 ! k \<noteq> b2 ! k"] that k
      unfolding k_def by auto
    then have "get_diff_from b1 b2 0 = Some k"
      using k by (intro get_diff_from_first) auto
    with assms show False by simp
  next
    case False
    then have agree: "get_diff_from b1 b2 0 =
        (if length b1 \<noteq> length b2 then Some (min (length b1) (length b2)) else None)"
      by (intro get_diff_from_agree) auto
    with assms have "length b1 = length b2" by (simp split: if_splits)
    with False have "b1 = b2" by (auto intro: nth_equalityI)
    with ne show False by simp
  qed
qed

lemma strict_prefix_agree:
  assumes "strict_prefix b1 b2"
  shows "length b1 < length b2 \<and> (\<forall>j < length b1. b1 ! j = b2 ! j)"
proof -
  from assms obtain zs where "b2 = b1 @ zs" and "zs \<noteq> []"
    by (auto simp add: strict_prefix_def prefix_def)
  then show ?thesis by (simp add: nth_append)
qed

lemma get_diff_from_common_prefix:
  assumes "x \<noteq> y"
  shows "get_diff_from (p @ x # r1) (p @ y # r2) 0 = Some (length p)"
  using assms by (intro get_diff_from_first) (simp_all add: nth_append)

lemma new_serializer_inactive: "inactive new_serializer"
  by (simp add: inactive_def new_serializer_def)

lemma write_typed_new:
  "write_typed v new_serializer = (Inr (), \<lparr>s_buffer = wire_elem v, s_break_offset = None\<rparr>)"
  using appends_inactive [OF appends_write_typed new_serializer_inactive, of v]
  by (simp add: new_serializer_def)

text \<open>
  C7. \<open>get_diff\<close> returns the smallest offset at which the two buffers differ (an
  offset \<open>k\<close> inside both, with different bytes at \<open>k\<close> and equal bytes before it);
  where one buffer is a strict prefix of the other it returns the length of the shorter;
  and it returns \<open>None\<close> exactly when the buffers are equal. For the \<open>std::string\<close>s
  "abc" and "abd", each written to a new encoder, it returns 14, the offset of the
  payload byte of the last character.
\<close>

theorem get_diff_spec:
  "(k < length (get_buffer s) \<and> k < length (get_buffer other) \<and>
    get_buffer s ! k \<noteq> get_buffer other ! k \<and>
    (\<forall>j. j < k \<longrightarrow> get_buffer s ! j = get_buffer other ! j) \<longrightarrow>
      get_diff s other = Some k) \<and>
   (strict_prefix (get_buffer s) (get_buffer other) \<or>
    strict_prefix (get_buffer other) (get_buffer s) \<longrightarrow>
      get_diff s other = Some (min (length (get_buffer s)) (length (get_buffer other)))) \<and>
   (get_diff s other = None \<longleftrightarrow> get_buffer s = get_buffer other) \<and>
   get_diff (snd (write_typed (String [[of_char CHR ''a''], [of_char CHR ''b''], [of_char CHR ''c'']]) new_serializer))
            (snd (write_typed (String [[of_char CHR ''a''], [of_char CHR ''b''], [of_char CHR ''d'']]) new_serializer))
     = Some 14"
proof (intro conjI impI)
  assume "k < length (get_buffer s) \<and> k < length (get_buffer other) \<and>
    get_buffer s ! k \<noteq> get_buffer other ! k \<and>
    (\<forall>j. j < k \<longrightarrow> get_buffer s ! j = get_buffer other ! j)"
  then show "get_diff s other = Some k"
    unfolding get_diff_def by (intro get_diff_from_first) auto
next
  assume "strict_prefix (get_buffer s) (get_buffer other) \<or>
    strict_prefix (get_buffer other) (get_buffer s)"
  then have "length (get_buffer s) \<noteq> length (get_buffer other) \<and>
      (\<forall>j < min (length (get_buffer s)) (length (get_buffer other)).
         get_buffer s ! j = get_buffer other ! j)"
    using strict_prefix_agree [of "get_buffer s" "get_buffer other"]
      strict_prefix_agree [of "get_buffer other" "get_buffer s"]
    by auto
  then show "get_diff s other = Some (min (length (get_buffer s)) (length (get_buffer other)))"
    unfolding get_diff_def by (subst get_diff_from_agree) auto
next
  show "get_diff s other = None \<longleftrightarrow> get_buffer s = get_buffer other"
  proof
    assume "get_diff s other = None"
    then show "get_buffer s = get_buffer other"
      unfolding get_diff_def by (rule get_diff_from_None)
  next
    assume "get_buffer s = get_buffer other"
    then show "get_diff s other = None"
      unfolding get_diff_def by (subst get_diff_from_agree) auto
  qed
next
  let ?p = "[8, 3, 0, 0, 0, 0, 0, 0, 0, 1, 97, 1, 98, 1] :: byte list"
  have abc: "wire_elem (String [[of_char CHR ''a''], [of_char CHR ''b''], [of_char CHR ''c'']]) = ?p @ 99 # []"
    and abd: "wire_elem (String [[of_char CHR ''a''], [of_char CHR ''b''], [of_char CHR ''d'']]) = ?p @ 100 # []"
    by code_simp+
  have "get_diff_from (?p @ 99 # []) (?p @ 100 # []) 0 = Some (length ?p)"
    by (rule get_diff_from_common_prefix) simp
  then show "get_diff (snd (write_typed (String [[of_char CHR ''a''], [of_char CHR ''b''], [of_char CHR ''c'']]) new_serializer))
            (snd (write_typed (String [[of_char CHR ''a''], [of_char CHR ''b''], [of_char CHR ''d'']]) new_serializer))
     = Some 14"
    unfolding write_typed_new get_diff_def get_buffer_def snd_conv buffer_serializer.simps abc abd
    by simp
qed

theorem get_diff_spec_witness:
  "get_diff \<lparr>s_buffer = [1, 2], s_break_offset = None\<rparr> \<lparr>s_buffer = [1, 3], s_break_offset = None\<rparr> = Some 1 \<and>
   get_diff \<lparr>s_buffer = [1, 2], s_break_offset = None\<rparr> \<lparr>s_buffer = [1, 2, 3], s_break_offset = None\<rparr> = Some 2 \<and>
   get_diff \<lparr>s_buffer = [1, 2], s_break_offset = None\<rparr> \<lparr>s_buffer = [1, 2], s_break_offset = None\<rparr> = None"
proof -
  let ?a = "\<lparr>s_buffer = [1, 2], s_break_offset = None\<rparr>"
  let ?b = "\<lparr>s_buffer = [1, 3], s_break_offset = None\<rparr>"
  let ?c = "\<lparr>s_buffer = [1, 2, 3], s_break_offset = None\<rparr>"
  have h1: "1 < length (get_buffer ?a) \<and> 1 < length (get_buffer ?b) \<and>
      get_buffer ?a ! 1 \<noteq> get_buffer ?b ! 1 \<and>
      (\<forall>j. j < 1 \<longrightarrow> get_buffer ?a ! j = get_buffer ?b ! j)"
    by (simp add: get_buffer_def)
  have h2: "strict_prefix (get_buffer ?a) (get_buffer ?c) \<or> strict_prefix (get_buffer ?c) (get_buffer ?a)"
    by (simp add: get_buffer_def strict_prefix_def)
  have m: "min (length (get_buffer ?a)) (length (get_buffer ?c)) = 2"
    by (simp add: get_buffer_def)
  from get_diff_spec [of 1 ?a ?b] h1 have 1: "get_diff ?a ?b = Some 1" by blast
  from get_diff_spec [of 0 ?a ?c] h2 have 2: "get_diff ?a ?c = Some 2" unfolding m by blast
  from get_diff_spec [of 0 ?a ?a] have 3: "get_diff ?a ?a = None" by blast
  from 1 2 3 show ?thesis by blast
qed

subsection \<open>Construction\<close>

text \<open>
  C8. \<open>construct_object<T>\<close>, and with it \<open>read<T>()\<close>, takes the instance from the
  constructor from a decoder reference if \<open>T\<close> has one; else from default construction
  if \<open>T\<close> has that; else from the factory registered under \<open>T\<close>'s identity on this
  decoder; and with none of the three it throws \<open>ConstructionError\<close> carrying \<open>T\<close>'s name.
  The first two cases do not depend on \<open>d_factories\<close>: a factory is looked up only when
  \<open>T\<close> has neither constructor. A factory registered with \<open>register_factory\<close> is the
  one found.
\<close>

theorem construct_object_order:
  "(deserializer_constructor T = Some ctor \<longrightarrow>
      construct_object T d = ctor d \<and> read_object T fill d = and_then ctor fill d) \<and>
   (deserializer_constructor T = None \<and> default_constructed T = Some object \<longrightarrow>
      construct_object T d = (Inr object, d) \<and> read_object T fill d = fill object d) \<and>
   (deserializer_constructor T = None \<and> default_constructed T = None \<and>
    d_factories d (type_name T) = Some factory \<longrightarrow>
      construct_object T d = (Inr (factory ()), d) \<and> read_object T fill d = fill (factory ()) d) \<and>
   (deserializer_constructor T = None \<and> default_constructed T = None \<and>
    d_factories d (type_name T) = None \<longrightarrow>
      construct_object T d = (Inl (ConstructionError (type_name T)), d) \<and>
      read_object T fill d = (Inl (ConstructionError (type_name T)), d)) \<and>
   (deserializer_constructor T = None \<and> default_constructed T = None \<longrightarrow>
      construct_object T (register_factory T factory' d) =
        (Inr (factory' ()), register_factory T factory' d))"
  by (simp add: construct_object_def read_object_def register_factory_def and_then_def)

theorem construct_object_order_witness:
  "construct_object \<lparr>type_name = ''P'', deserializer_constructor = None, default_constructed = None\<rparr>
       (deserializer_of_bytes [4, 7, 0, 0, 0] :: elem buffer_deserializer) =
     (Inl (ConstructionError ''P''), deserializer_of_bytes [4, 7, 0, 0, 0]) \<and>
   construct_object \<lparr>type_name = ''P'', deserializer_constructor = None, default_constructed = None\<rparr>
       (register_factory \<lparr>type_name = ''P'', deserializer_constructor = None, default_constructed = None\<rparr>
          (\<lambda>_. Trivial [1, 0, 0, 0]) (deserializer_of_bytes [4, 7, 0, 0, 0])) =
     (Inr (Trivial [1, 0, 0, 0]),
      register_factory \<lparr>type_name = ''P'', deserializer_constructor = None, default_constructed = None\<rparr>
          (\<lambda>_. Trivial [1, 0, 0, 0]) (deserializer_of_bytes [4, 7, 0, 0, 0])) \<and>
   construct_object \<lparr>type_name = ''int'', deserializer_constructor = None,
         default_constructed = Some (Trivial [0, 0, 0, 0])\<rparr>
       (register_factory \<lparr>type_name = ''int'', deserializer_constructor = None,
            default_constructed = Some (Trivial [0, 0, 0, 0])\<rparr>
          (\<lambda>_. Trivial [1, 0, 0, 0]) (deserializer_of_bytes [4, 7, 0, 0, 0])) =
     (Inr (Trivial [0, 0, 0, 0]),
      register_factory \<lparr>type_name = ''int'', deserializer_constructor = None,
            default_constructed = Some (Trivial [0, 0, 0, 0])\<rparr>
          (\<lambda>_. Trivial [1, 0, 0, 0]) (deserializer_of_bytes [4, 7, 0, 0, 0]))"
proof -
  let ?P = "\<lparr>type_name = ''P'', deserializer_constructor = None, default_constructed = None\<rparr>
              :: elem type_traits"
  let ?I = "\<lparr>type_name = ''int'', deserializer_constructor = None,
               default_constructed = Some (Trivial [0, 0, 0, 0])\<rparr> :: elem type_traits"
  let ?f = "\<lambda>_::unit. Trivial [1, 0, 0, 0]"
  let ?d = "deserializer_of_bytes [4, 7, 0, 0, 0] :: elem buffer_deserializer"
  have p: "deserializer_constructor ?P = None \<and> default_constructed ?P = None \<and>
      d_factories ?d (type_name ?P) = None"
    by (simp add: deserializer_of_bytes_def)
  have p': "deserializer_constructor ?P = None \<and> default_constructed ?P = None"
    by simp
  have i: "deserializer_constructor ?I = None \<and> default_constructed ?I = Some (Trivial [0, 0, 0, 0])"
    by simp
  from construct_object_order [where T = ?P and d = ?d] p
  have 1: "construct_object ?P ?d = (Inl (ConstructionError (type_name ?P)), ?d)" by blast
  from construct_object_order [where T = ?P and d = ?d and factory' = ?f] p'
  have 2: "construct_object ?P (register_factory ?P ?f ?d) = (Inr (?f ()), register_factory ?P ?f ?d)"
    by blast
  from construct_object_order [where T = ?I and d = "register_factory ?I ?f ?d"
      and object = "Trivial [0, 0, 0, 0]"] i
  have 3: "construct_object ?I (register_factory ?I ?f ?d) =
      (Inr (Trivial [0, 0, 0, 0]), register_factory ?I ?f ?d)" by blast
  from 1 2 3 show ?thesis by simp
qed

subsection \<open>What the readers read back\<close>

lemma le_value_le_bytes: "le_value (le_bytes k v) = v mod 256 ^ k"
proof (induction k arbitrary: v)
  case 0
  show ?case by simp
next
  case (Suc k)
  have "unat (of_nat (v mod 256) :: byte) = v mod 256"
    by (simp add: unat_of_nat)
  then have "le_value (le_bytes (Suc k) v) = v mod 256 + 256 * (v div 256 mod 256 ^ k)"
    by (simp add: Suc.IH)
  also have "\<dots> = v mod (256 * 256 ^ k)"
    by (simp add: mod_mult2_eq)
  finally show ?case by simp
qed

lemma length_le_bytes: "length (le_bytes k v) = k"
  by (induction k arbitrary: v) simp_all

lemma length_uint64_repr: "length (uint64_repr n) = 8"
  by (simp add: uint64_repr_def length_le_bytes)

lemma le_value_uint64_repr: "n < 2 ^ 64 \<Longrightarrow> le_value (uint64_repr n) = n"
proof -
  assume "n < 2 ^ 64"
  moreover have "(256::nat) ^ 8 = 2 ^ 64" by simp
  ultimately show ?thesis
    by (simp only: uint64_repr_def le_value_le_bytes mod_less)
qed

lemma read_bytes_frame:
  assumes "d_buffer d = pre @ frame data @ post" and "d_offset d = length pre"
    and "length (d_buffer d) < 2 ^ 64"
  shows "read_bytes (length data) d = (Inr data, d\<lparr>d_offset := length pre + length (frame data)\<rparr>)"
  by (simp add: read_bytes_def read_data_frame [OF assms] succeed_apply)

lemma construct_object_traits:
  assumes "constructible d T"
  shows "\<exists>object. construct_object (traits_of T) d = (Inr object, d)"
  using assms by (cases T) (auto simp add: construct_object_def)

lemma read_object_traits:
  assumes "constructible d T" and "\<And>object. fill object d = res"
  shows "read_object (traits_of T) fill d = res"
proof -
  from construct_object_traits [OF assms(1)] obtain object
    where "construct_object (traits_of T) d = (Inr object, d)" ..
  then show ?thesis by (simp add: read_object_def assms(2))
qed

lemma read_raw_frame:
  assumes "d_buffer d = pre @ frame object @ post" and "d_offset d = length pre"
    and "length (d_buffer d) < 2 ^ 64" and "length object = n"
    and "constructible d (T_trivial name n dc)"
  shows "read_raw name n dc d = (Inr object, d\<lparr>d_offset := length pre + length (frame object)\<rparr>)"
  unfolding read_raw_def
  by (rule read_object_traits [OF assms(5)])
     (use read_bytes_frame [OF assms(1-3)] assms(4) in simp)

lemma read_uint64_frame:
  assumes "d_buffer d = pre @ frame (uint64_repr n) @ post" and "d_offset d = length pre"
    and "length (d_buffer d) < 2 ^ 64" and "n < 2 ^ 64"
  shows "read_uint64 d = (Inr n, d\<lparr>d_offset := length pre + length (frame (uint64_repr n))\<rparr>)"
proof -
  have "read_raw ''uint64_t'' 8 True d =
      (Inr (uint64_repr n), d\<lparr>d_offset := length pre + length (frame (uint64_repr n))\<rparr>)"
    by (rule read_raw_frame [OF assms(1-3)]) (simp_all add: length_uint64_repr)
  then show ?thesis
    by (simp add: read_uint64_def succeed_apply le_value_uint64_repr [OF assms(4)])
qed

lemma read_loop_wire:
  assumes step: "\<And>x d pre post. x \<in> set xs \<Longrightarrow> d_buffer d = B \<Longrightarrow> d_factories d = F \<Longrightarrow>
      B = pre @ wire x @ post \<Longrightarrow> d_offset d = length pre \<Longrightarrow>
      r d = (Inr x, d\<lparr>d_offset := length pre + length (wire x)\<rparr>)"
    and "d_buffer d = B" and "d_factories d = F"
    and "B = pre @ concat (map wire xs) @ post" and "d_offset d = length pre"
  shows "read_loop r ins (length xs) result d =
     (Inr (foldl ins result xs), d\<lparr>d_offset := length pre + length (concat (map wire xs))\<rparr>)"
  using assms
proof (induction xs arbitrary: d pre result)
  case Nil
  then show ?case by (simp add: succeed_apply)
next
  case (Cons x xs)
  let ?d1 = "d\<lparr>d_offset := length pre + length (wire x)\<rparr>"
  have r: "r d = (Inr x, ?d1)"
    by (rule Cons.prems(1) [where post = "concat (map wire xs) @ post"]) (use Cons.prems in simp_all)
  have "read_loop r ins (length xs) (ins result x) ?d1 =
      (Inr (foldl ins (ins result x) xs),
       ?d1\<lparr>d_offset := length (pre @ wire x) + length (concat (map wire xs))\<rparr>)"
  proof (rule Cons.IH)
    show "r d = (Inr y, d\<lparr>d_offset := length pre + length (wire y)\<rparr>)"
      if "y \<in> set xs" "d_buffer d = B" "d_factories d = F" "B = pre @ wire y @ post"
        "d_offset d = length pre" for y d pre post
      using that by (intro Cons.prems(1)) simp_all
  qed (use Cons.prems in simp_all)
  then show ?case by (simp add: r add.assoc)
qed

lemma foldl_emplace_back: "foldl emplace_back result xs = result @ xs"
  by (induction xs arbitrary: result) (simp_all add: emplace_back_def)

lemma length_concat_ge:
  assumes "\<And>x. x \<in> set xs \<Longrightarrow> wire x \<noteq> []"
  shows "length xs \<le> length (concat (map wire xs))"
  using assms
proof (induction xs)
  case Nil
  show ?case by simp
next
  case (Cons x xs)
  have "wire x \<noteq> []" using Cons.prems by simp
  then have "1 \<le> length (wire x)" by (cases "wire x") simp_all
  moreover have "length xs \<le> length (concat (map wire xs))" using Cons by simp
  ultimately have "1 + length xs \<le> length (wire x) + length (concat (map wire xs))"
    by (rule add_mono)
  then show ?case by simp
qed

lemma frame_not_Nil: "frame data \<noteq> []"
  by (simp add: frame_def)

lemma wire_elem_not_Nil: "wire_elem v \<noteq> []"
  by (cases v) (simp_all add: frame_def)

lemma read_string_wire:
  assumes "d_buffer d = pre @ frame (uint64_repr (length str)) @ concat (map frame str) @ post"
    and "d_offset d = length pre" and "length (d_buffer d) < 2 ^ 64"
    and "list_all (\<lambda>c. length c = w) str"
  shows "read_string w d =
     (Inr str, d\<lparr>d_offset := length pre + length (frame (uint64_repr (length str)) @ concat (map frame str))\<rparr>)"
proof -
  let ?count = "frame (uint64_repr (length str))"
  let ?d1 = "d\<lparr>d_offset := length pre + length ?count\<rparr>"
  have "length str \<le> length (concat (map frame str))"
    by (rule length_concat_ge) (rule frame_not_Nil)
  then have n: "length str < 2 ^ 64" using assms(1,3) by simp
  have count: "read_uint64 d = (Inr (length str), ?d1)"
    by (rule read_uint64_frame [OF _ assms(2,3) n]) (simp add: assms(1))
  have "read_loop (read_raw ''CharT'' w True) emplace_back (length str) [] ?d1 =
      (Inr (foldl emplace_back [] str),
       ?d1\<lparr>d_offset := length (pre @ ?count) + length (concat (map frame str))\<rparr>)"
  proof (rule read_loop_wire [where B = "d_buffer d" and F = "d_factories d" and post = post])
    show "read_raw ''CharT'' w True d' = (Inr c, d'\<lparr>d_offset := length pre' + length (frame c)\<rparr>)"
      if "c \<in> set str" "d_buffer d' = d_buffer d" "d_factories d' = d_factories d"
        "d_buffer d = pre' @ frame c @ post'" "d_offset d' = length pre'" for c d' pre' post'
    proof (rule read_raw_frame)
      show "length c = w" using that(1) assms(4) by (simp add: list_all_iff)
    qed (use that assms(3) in simp_all)
  qed (simp_all add: assms(1))
  then show ?thesis
    by (simp add: read_string_def count foldl_emplace_back add.assoc)
qed

lemma read_into_wire:
  assumes "has_type T v" and "d_buffer d = pre @ wire_elem v @ post"
    and "d_offset d = length pre" and "length (d_buffer d) < 2 ^ 64"
  shows "read_into T object d = (Inr v, d\<lparr>d_offset := length pre + length (wire_elem v)\<rparr>)"
proof (cases T)
  case (T_trivial name n dc)
  with assms(1) obtain obj where v: "v = Trivial obj" and n: "length obj = n"
    by (cases v) simp_all
  have "read_bytes (length obj) d = (Inr obj, d\<lparr>d_offset := length pre + length (frame obj)\<rparr>)"
    by (rule read_bytes_frame) (use assms v in simp_all)
  then show ?thesis by (simp add: T_trivial v n [symmetric] succeed_apply)
next
  case T_bool
  with assms(1) obtain b where v: "v = Boolean b" by (cases v) simp_all
  let ?byte = "[if b then 1 else 0] :: byte list"
  have "read_raw ''uint8_t'' 1 True d = (Inr ?byte, d\<lparr>d_offset := length pre + length (frame ?byte)\<rparr>)"
    by (rule read_raw_frame) (use assms v in simp_all)
  then show ?thesis by (simp add: T_bool v read_uint8_def succeed_apply)
next
  case (T_string w)
  with assms(1) obtain str where v: "v = String str" and str: "list_all (\<lambda>c. length c = w) str"
    by (cases v) simp_all
  have "read_string w d =
     (Inr str, d\<lparr>d_offset := length pre + length (frame (uint64_repr (length str)) @ concat (map frame str))\<rparr>)"
    by (rule read_string_wire) (use assms v str in simp_all)
  then show ?thesis by (simp add: T_string v succeed_apply)
qed

lemma read_typed_wire:
  assumes "has_type T v" and "constructible d T" and "d_buffer d = pre @ wire_elem v @ post"
    and "d_offset d = length pre" and "length (d_buffer d) < 2 ^ 64"
  shows "read_typed T d = (Inr v, d\<lparr>d_offset := length pre + length (wire_elem v)\<rparr>)"
  unfolding read_typed_def
  by (rule read_object_traits [OF assms(2)]) (rule read_into_wire [OF assms(1,3-5)])

lemma read_optional_wire:
  assumes "case val of None \<Rightarrow> True | Some v \<Rightarrow> has_type T v" and "constructible d T"
    and "d_buffer d = pre @ wire_optional val @ post"
    and "d_offset d = length pre" and "length (d_buffer d) < 2 ^ 64"
  shows "read_optional T d = (Inr val, d\<lparr>d_offset := length pre + length (wire_optional val)\<rparr>)"
proof (cases val)
  case None
  have "read_typed T_bool d =
      (Inr (Boolean False), d\<lparr>d_offset := length pre + length (wire_elem (Boolean False))\<rparr>)"
    by (rule read_typed_wire) (use assms None in \<open>simp_all add: wire_optional_def\<close>)
  then show ?thesis
    by (simp add: read_optional_def None wire_optional_def succeed_apply)
next
  case (Some v)
  let ?d1 = "d\<lparr>d_offset := length pre + length (wire_elem (Boolean True))\<rparr>"
  have flag: "read_typed T_bool d = (Inr (Boolean True), ?d1)"
    by (rule read_typed_wire [where post = "wire_elem v @ post"])
       (use assms Some in \<open>simp_all add: wire_optional_def\<close>)
  have "read_typed T ?d1 =
      (Inr v, ?d1\<lparr>d_offset := length (pre @ wire_elem (Boolean True)) + length (wire_elem v)\<rparr>)"
  proof (rule read_typed_wire [where post = post])
    show "constructible ?d1 T" using assms(2) by (cases T) simp_all
  qed (use assms Some in \<open>simp_all add: wire_optional_def\<close>)
  then show ?thesis
    by (simp add: read_optional_def Some wire_optional_def flag succeed_apply)
qed

lemma read_optional_factory_wire:
  assumes "case val of None \<Rightarrow> True | Some v \<Rightarrow> has_type T v"
    and "d_buffer d = pre @ wire_optional val @ post"
    and "d_offset d = length pre" and "length (d_buffer d) < 2 ^ 64"
  shows "read_optional_factory T factory d =
     (Inr val, d\<lparr>d_offset := length pre + length (wire_optional val)\<rparr>)"
proof (cases val)
  case None
  have "read_typed T_bool d =
      (Inr (Boolean False), d\<lparr>d_offset := length pre + length (wire_elem (Boolean False))\<rparr>)"
    by (rule read_typed_wire) (use assms None in \<open>simp_all add: wire_optional_def\<close>)
  then show ?thesis
    by (simp add: read_optional_factory_def None wire_optional_def succeed_apply)
next
  case (Some v)
  let ?d1 = "d\<lparr>d_offset := length pre + length (wire_elem (Boolean True))\<rparr>"
  have flag: "read_typed T_bool d = (Inr (Boolean True), ?d1)"
    by (rule read_typed_wire [where post = "wire_elem v @ post"])
       (use assms Some in \<open>simp_all add: wire_optional_def\<close>)
  have "read_into T (factory ()) ?d1 =
      (Inr v, ?d1\<lparr>d_offset := length (pre @ wire_elem (Boolean True)) + length (wire_elem v)\<rparr>)"
    by (rule read_into_wire [where post = post])
       (use assms Some in \<open>simp_all add: wire_optional_def\<close>)
  then show ?thesis
    by (simp add: read_optional_factory_def Some wire_optional_def flag succeed_apply)
qed

lemma read_optional_none_wire:
  assumes "d_buffer d = pre @ wire_optional None @ post"
    and "d_offset d = length pre" and "length (d_buffer d) < 2 ^ 64"
  shows "read_optional T d = (Inr None, d\<lparr>d_offset := length pre + length (wire_optional None)\<rparr>)"
proof -
  have "read_typed T_bool d =
      (Inr (Boolean False), d\<lparr>d_offset := length pre + length (wire_elem (Boolean False))\<rparr>)"
    by (rule read_typed_wire) (use assms in \<open>simp_all add: wire_optional_def\<close>)
  then show ?thesis
    by (simp add: read_optional_def wire_optional_def succeed_apply)
qed

lemma constructible_offset: "constructible (d\<lparr>d_offset := k\<rparr>) T = constructible d T"
  by (cases T) simp_all

lemma constructible_cong:
  "d_factories d' = d_factories d \<Longrightarrow> constructible d' T = constructible d T"
  by (cases T) simp_all

lemma read_sequence_wire:
  assumes "list_all (has_type T) vec" and "constructible d T"
    and "d_buffer d = pre @ wire_sequence vec @ post"
    and "d_offset d = length pre" and "length (d_buffer d) < 2 ^ 64"
  shows "and_then read_uint64 (\<lambda>size. read_loop (read_typed T) emplace_back size []) d =
     (Inr vec, d\<lparr>d_offset := length pre + length (wire_sequence vec)\<rparr>)"
proof -
  let ?count = "frame (uint64_repr (length vec))"
  let ?d1 = "d\<lparr>d_offset := length pre + length ?count\<rparr>"
  have "length vec \<le> length (concat (map wire_elem vec))"
    by (rule length_concat_ge) (rule wire_elem_not_Nil)
  then have n: "length vec < 2 ^ 64" using assms(3,5) by (simp add: wire_sequence_def)
  have count: "read_uint64 d = (Inr (length vec), ?d1)"
    by (rule read_uint64_frame [OF _ assms(4,5) n]) (simp add: assms(3) wire_sequence_def)
  have "read_loop (read_typed T) emplace_back (length vec) [] ?d1 =
      (Inr (foldl emplace_back [] vec),
       ?d1\<lparr>d_offset := length (pre @ ?count) + length (concat (map wire_elem vec))\<rparr>)"
  proof (rule read_loop_wire [where B = "d_buffer d" and F = "d_factories d" and post = post])
    show "read_typed T d' = (Inr v, d'\<lparr>d_offset := length pre' + length (wire_elem v)\<rparr>)"
      if "v \<in> set vec" "d_buffer d' = d_buffer d" "d_factories d' = d_factories d"
        "d_buffer d = pre' @ wire_elem v @ post'" "d_offset d' = length pre'" for v d' pre' post'
    proof (rule read_typed_wire)
      show "has_type T v" using that(1) assms(1) by (simp add: list_all_iff)
      show "constructible d' T" using assms(2) constructible_cong [OF that(3), of T] by simp
    qed (use that assms(5) in simp_all)
  qed (simp_all add: assms(3) wire_sequence_def)
  then show ?thesis
    by (simp add: count foldl_emplace_back wire_sequence_def add.assoc)
qed

lemma foldl_emplace:
  assumes "distinct (map fst m)" and "dom result \<inter> fst ` set m = {}"
  shows "foldl emplace result m = result ++ map_of m"
  using assms
proof (induction m arbitrary: result)
  case Nil
  show ?case by simp
next
  case (Cons entry m)
  obtain k v where entry: "entry = (k, v)" by (cases entry)
  have absent: "result k = None" using Cons.prems(2) entry by auto
  have k: "k \<notin> fst ` set m" using Cons.prems(1) entry by auto
  then have k': "k \<notin> dom (map_of m)" by (simp add: dom_map_of_conv_image_fst)
  have "dom result \<inter> fst ` set m = {}" using Cons.prems(2) by auto
  then have "dom (result(k \<mapsto> v)) \<inter> fst ` set m = {}" using k by simp
  moreover have "distinct (map fst m)" using Cons.prems(1) by simp
  ultimately have ih: "foldl emplace (result(k \<mapsto> v)) m = result(k \<mapsto> v) ++ map_of m"
    by (intro Cons.IH)
  have "foldl emplace result (entry # m) = foldl emplace (result(k \<mapsto> v)) m"
    by (simp add: entry emplace_def absent)
  also note ih
  also have "result(k \<mapsto> v) ++ map_of m = (result ++ map_of m)(k \<mapsto> v)"
    using k' by (simp add: map_add_upd_left)
  also have "\<dots> = result ++ (map_of m)(k \<mapsto> v)"
    by (simp only: map_add_upd)
  also have "(map_of m)(k \<mapsto> v) = map_of (entry # m)"
    by (simp only: entry map_of.simps fst_conv snd_conv)
  finally show ?case .
qed

lemma wire_entry_not_Nil: "wire_entry entry \<noteq> []"
  by (simp add: wire_entry_def wire_elem_not_Nil)

lemma read_entry_wire:
  assumes "has_type K (fst entry)" and "has_type V (snd entry)"
    and "constructible d K" and "constructible d V"
    and "d_buffer d = pre @ wire_entry entry @ post"
    and "d_offset d = length pre" and "length (d_buffer d) < 2 ^ 64"
  shows "and_then (read_typed K) (\<lambda>key. and_then (read_typed V) (\<lambda>value. succeed (key, value))) d =
     (Inr entry, d\<lparr>d_offset := length pre + length (wire_entry entry)\<rparr>)"
proof -
  let ?d1 = "d\<lparr>d_offset := length pre + length (wire_elem (fst entry))\<rparr>"
  have key: "read_typed K d = (Inr (fst entry), ?d1)"
    by (rule read_typed_wire [where post = "wire_elem (snd entry) @ post"])
       (use assms in \<open>simp_all add: wire_entry_def\<close>)
  have "read_typed V ?d1 =
      (Inr (snd entry),
       ?d1\<lparr>d_offset := length (pre @ wire_elem (fst entry)) + length (wire_elem (snd entry))\<rparr>)"
    by (rule read_typed_wire [where post = post])
       (use assms in \<open>simp_all add: wire_entry_def constructible_offset\<close>)
  then show ?thesis
    by (simp add: key succeed_apply wire_entry_def add.assoc)
qed

lemma read_map_wire:
  assumes "list_all (\<lambda>entry. has_type K (fst entry) \<and> has_type V (snd entry)) m"
    and "distinct (map fst m)"
    and "constructible d K" and "constructible d V"
    and "d_buffer d = pre @ wire_map m @ post"
    and "d_offset d = length pre" and "length (d_buffer d) < 2 ^ 64"
  shows "read_map K V d = (Inr (map_of m), d\<lparr>d_offset := length pre + length (wire_map m)\<rparr>)"
proof -
  let ?count = "frame (uint64_repr (length m))"
  let ?d1 = "d\<lparr>d_offset := length pre + length ?count\<rparr>"
  let ?r = "and_then (read_typed K) (\<lambda>key. and_then (read_typed V) (\<lambda>value. succeed (key, value)))"
  have "length m \<le> length (concat (map wire_entry m))"
    by (rule length_concat_ge) (rule wire_entry_not_Nil)
  then have n: "length m < 2 ^ 64" using assms(5,7) by (simp add: wire_map_def)
  have count: "read_uint64 d = (Inr (length m), ?d1)"
    by (rule read_uint64_frame [OF _ assms(6,7) n]) (simp add: assms(5) wire_map_def)
  have "read_loop ?r emplace (length m) Map.empty ?d1 =
      (Inr (foldl emplace Map.empty m),
       ?d1\<lparr>d_offset := length (pre @ ?count) + length (concat (map wire_entry m))\<rparr>)"
  proof (rule read_loop_wire [where B = "d_buffer d" and F = "d_factories d" and post = post])
    show "?r d' = (Inr entry, d'\<lparr>d_offset := length pre' + length (wire_entry entry)\<rparr>)"
      if "entry \<in> set m" "d_buffer d' = d_buffer d" "d_factories d' = d_factories d"
        "d_buffer d = pre' @ wire_entry entry @ post'" "d_offset d' = length pre'"
      for entry d' pre' post'
    proof (rule read_entry_wire)
      show "has_type K (fst entry)" "has_type V (snd entry)"
        using that(1) assms(1) by (simp_all add: list_all_iff)
      show "constructible d' K" "constructible d' V"
        using assms(3,4) constructible_cong [OF that(3), of K] constructible_cong [OF that(3), of V]
        by simp_all
    qed (use that assms(7) in simp_all)
  qed (simp_all add: assms(5) wire_map_def)
  moreover have "foldl emplace Map.empty m = map_of m"
    using foldl_emplace [OF assms(2), of Map.empty] by simp
  ultimately show ?thesis
    by (simp add: read_map_def count wire_map_def add.assoc)
qed

lemma written_buffer:
  assumes "appends w bs" and "w s = (Inr (), s')"
  shows "get_buffer s' = get_buffer s @ bs @ []"
  using appends_success [OF assms] by (simp add: get_buffer_def)

lemma end_offset:
  assumes "get_buffer s' = get_buffer s @ bs @ []"
  shows "length (get_buffer s) + length bs = length (get_buffer s')"
  using assms by simp

subsection \<open>Round trips\<close>

text \<open>
  What is read back after a write that succeeded, whatever the break offset: \<open>s'\<close> is
  the encoder the write left.
\<close>

lemma read_back_after_write:
  assumes "d_buffer d = get_buffer s'" and "d_offset d = length (get_buffer s)"
    and "length (get_buffer s') < 2 ^ 64"
  shows "(write_typed v s = (Inr (), s') \<and> has_type T v \<longrightarrow>
            read_into T object d = (Inr v, d\<lparr>d_offset := length (get_buffer s')\<rparr>)) \<and>
         (write_typed v s = (Inr (), s') \<and> has_type T v \<and> constructible d T \<longrightarrow>
            read_typed T d = (Inr v, d\<lparr>d_offset := length (get_buffer s')\<rparr>)) \<and>
         (write_atomic v s = (Inr (), s') \<and> has_type T v \<and> constructible d T \<longrightarrow>
            read_atomic T d = (Inr v, d\<lparr>d_offset := length (get_buffer s')\<rparr>)) \<and>
         (write_optional val s = (Inr (), s') \<and>
          (case val of None \<Rightarrow> True | Some v \<Rightarrow> has_type T v) \<and> constructible d T \<longrightarrow>
            read_optional T d = (Inr val, d\<lparr>d_offset := length (get_buffer s')\<rparr>)) \<and>
         (write_optional val s = (Inr (), s') \<and>
          (case val of None \<Rightarrow> True | Some v \<Rightarrow> has_type T v) \<longrightarrow>
            read_optional_factory T factory d = (Inr val, d\<lparr>d_offset := length (get_buffer s')\<rparr>)) \<and>
         (write_vector vec s = (Inr (), s') \<and> list_all (has_type T) vec \<and> constructible d T \<longrightarrow>
            read_vector T d = (Inr vec, d\<lparr>d_offset := length (get_buffer s')\<rparr>)) \<and>
         (write_list vec s = (Inr (), s') \<and> list_all (has_type T) vec \<and> constructible d T \<longrightarrow>
            read_list T d = (Inr vec, d\<lparr>d_offset := length (get_buffer s')\<rparr>)) \<and>
         (write_map m s = (Inr (), s') \<and>
          list_all (\<lambda>entry. has_type K (fst entry) \<and> has_type V (snd entry)) m \<and>
          distinct (map fst m) \<and> constructible d K \<and> constructible d V \<longrightarrow>
            read_map K V d = (Inr (map_of m), d\<lparr>d_offset := length (get_buffer s')\<rparr>))"
proof (intro conjI impI; elim conjE)
  assume w: "write_typed v s = (Inr (), s')" and t: "has_type T v"
  note b = written_buffer [OF appends_write_typed w]
  show "read_into T object d = (Inr v, d\<lparr>d_offset := length (get_buffer s')\<rparr>)"
    unfolding end_offset [OF b, symmetric]
    by (rule read_into_wire [OF t]) (use assms b in simp_all)
next
  assume w: "write_typed v s = (Inr (), s')" and t: "has_type T v" and c: "constructible d T"
  note b = written_buffer [OF appends_write_typed w]
  show "read_typed T d = (Inr v, d\<lparr>d_offset := length (get_buffer s')\<rparr>)"
    unfolding end_offset [OF b, symmetric]
    by (rule read_typed_wire [OF t c]) (use assms b in simp_all)
next
  assume w: "write_atomic v s = (Inr (), s')" and t: "has_type T v" and c: "constructible d T"
  note b = written_buffer [OF appends_write_atomic w]
  show "read_atomic T d = (Inr v, d\<lparr>d_offset := length (get_buffer s')\<rparr>)"
    unfolding end_offset [OF b, symmetric] read_atomic_def
    by (rule read_typed_wire [OF t c]) (use assms b in simp_all)
next
  assume w: "write_optional val s = (Inr (), s')"
    and t: "case val of None \<Rightarrow> True | Some v \<Rightarrow> has_type T v" and c: "constructible d T"
  note b = written_buffer [OF appends_write_optional w]
  show "read_optional T d = (Inr val, d\<lparr>d_offset := length (get_buffer s')\<rparr>)"
    unfolding end_offset [OF b, symmetric]
    by (rule read_optional_wire [OF t c]) (use assms b in simp_all)
next
  assume w: "write_optional val s = (Inr (), s')"
    and t: "case val of None \<Rightarrow> True | Some v \<Rightarrow> has_type T v"
  note b = written_buffer [OF appends_write_optional w]
  show "read_optional_factory T factory d = (Inr val, d\<lparr>d_offset := length (get_buffer s')\<rparr>)"
    unfolding end_offset [OF b, symmetric]
    by (rule read_optional_factory_wire [OF t]) (use assms b in simp_all)
next
  assume w: "write_vector vec s = (Inr (), s')" and t: "list_all (has_type T) vec"
    and c: "constructible d T"
  note b = written_buffer [OF appends_write_vector w]
  show "read_vector T d = (Inr vec, d\<lparr>d_offset := length (get_buffer s')\<rparr>)"
    unfolding end_offset [OF b, symmetric] read_vector_def
    by (rule read_sequence_wire [OF t c]) (use assms b in simp_all)
next
  assume w: "write_list vec s = (Inr (), s')" and t: "list_all (has_type T) vec"
    and c: "constructible d T"
  note b = written_buffer [OF appends_write_list w]
  show "read_list T d = (Inr vec, d\<lparr>d_offset := length (get_buffer s')\<rparr>)"
    unfolding end_offset [OF b, symmetric] read_list_def
    by (rule read_sequence_wire [OF t c]) (use assms b in simp_all)
next
  assume w: "write_map m s = (Inr (), s')"
    and t: "list_all (\<lambda>entry. has_type K (fst entry) \<and> has_type V (snd entry)) m"
    and dist: "distinct (map fst m)" and c: "constructible d K" "constructible d V"
  note b = written_buffer [OF appends_write_map w]
  show "read_map K V d = (Inr (map_of m), d\<lparr>d_offset := length (get_buffer s')\<rparr>)"
    unfolding end_offset [OF b, symmetric]
    by (rule read_map_wire [OF t dist c]) (use assms b in simp_all)
qed

text \<open>
  C1. On an encoder \<open>s\<close> whose break offset cannot fire (none is set, or the buffer is
  past it), the typed write of a trivially copyable value, a \<open>bool\<close> or a string of any
  character width, and the derived writers for atomics, optionals, vectors, lists and
  maps, all succeed. A decoder over the buffer they leave, standing where the buffer of
  \<open>s\<close> ended (at 0 for a new encoder, which is the decoder constructed over the result),
  then reads back the value written and moves the cursor to the end of the buffer:
  \<open>read(T&)\<close> and \<open>read<T>()\<close> after the typed write; \<open>read_atomic\<close>, \<open>read_optional\<close>
  (both overloads), \<open>read_vector\<close>, \<open>read_list\<close> and \<open>read_map\<close> after the matching
  derived writer. The values are of the type read (\<open>has_type\<close>). The readers that
  construct their elements with \<open>read<T>()\<close> need the element type constructible, as
  \<open>construct_object\<close> demands and the capability contract of the specification says:
  default constructible, or with a factory registered. A map's keys are distinct, and
  the map read is the map of the entries written. The buffer is shorter than \<open>2 ^ 64\<close>
  bytes, as every buffer in a 64-bit address space is.
\<close>

theorem round_trip:
  assumes "inactive s" and "d_offset d = length (get_buffer s)"
    and "length (d_buffer d) < 2 ^ 64"
  shows "fst (write_typed v s) = Inr () \<and>
         (d_buffer d = get_buffer (snd (write_typed v s)) \<and> has_type T v \<longrightarrow>
            read_into T object d = (Inr v, d\<lparr>d_offset := length (d_buffer d)\<rparr>)) \<and>
         (d_buffer d = get_buffer (snd (write_typed v s)) \<and> has_type T v \<and> constructible d T \<longrightarrow>
            read_typed T d = (Inr v, d\<lparr>d_offset := length (d_buffer d)\<rparr>)) \<and>
         fst (write_atomic v s) = Inr () \<and>
         (d_buffer d = get_buffer (snd (write_atomic v s)) \<and> has_type T v \<and> constructible d T \<longrightarrow>
            read_atomic T d = (Inr v, d\<lparr>d_offset := length (d_buffer d)\<rparr>)) \<and>
         fst (write_optional val s) = Inr () \<and>
         (d_buffer d = get_buffer (snd (write_optional val s)) \<and>
          (case val of None \<Rightarrow> True | Some v \<Rightarrow> has_type T v) \<and> constructible d T \<longrightarrow>
            read_optional T d = (Inr val, d\<lparr>d_offset := length (d_buffer d)\<rparr>)) \<and>
         (d_buffer d = get_buffer (snd (write_optional val s)) \<and>
          (case val of None \<Rightarrow> True | Some v \<Rightarrow> has_type T v) \<longrightarrow>
            read_optional_factory T factory d = (Inr val, d\<lparr>d_offset := length (d_buffer d)\<rparr>)) \<and>
         fst (write_vector vec s) = Inr () \<and>
         (d_buffer d = get_buffer (snd (write_vector vec s)) \<and>
          list_all (has_type T) vec \<and> constructible d T \<longrightarrow>
            read_vector T d = (Inr vec, d\<lparr>d_offset := length (d_buffer d)\<rparr>)) \<and>
         fst (write_list vec s) = Inr () \<and>
         (d_buffer d = get_buffer (snd (write_list vec s)) \<and>
          list_all (has_type T) vec \<and> constructible d T \<longrightarrow>
            read_list T d = (Inr vec, d\<lparr>d_offset := length (d_buffer d)\<rparr>)) \<and>
         fst (write_map m s) = Inr () \<and>
         (d_buffer d = get_buffer (snd (write_map m s)) \<and>
          list_all (\<lambda>entry. has_type K (fst entry) \<and> has_type V (snd entry)) m \<and>
          distinct (map fst m) \<and> constructible d K \<and> constructible d V \<longrightarrow>
            read_map K V d = (Inr (map_of m), d\<lparr>d_offset := length (d_buffer d)\<rparr>))"
proof -
  note ok = inactive_write [OF _ assms(1)]
  note typed = ok [OF appends_write_typed, of v]
    and atomic = ok [OF appends_write_atomic, of v]
    and optional = ok [OF appends_write_optional, of val]
    and vector = ok [OF appends_write_vector, of vec]
    and list = ok [OF appends_write_list, of vec]
    and map = ok [OF appends_write_map, of m]
  have short: "length (get_buffer s') < 2 ^ 64" if "d_buffer d = get_buffer s'" for s'
    using assms(3) that by simp
  have 1: "read_into T object d = (Inr v, d\<lparr>d_offset := length (d_buffer d)\<rparr>)"
    if b: "d_buffer d = get_buffer (snd (write_typed v s))" and t: "has_type T v"
    using read_back_after_write [OF b assms(2) short [OF b], where v = v and T = T and object = object]
      typed t unfolding b by blast
  have 2: "read_typed T d = (Inr v, d\<lparr>d_offset := length (d_buffer d)\<rparr>)"
    if b: "d_buffer d = get_buffer (snd (write_typed v s))" and t: "has_type T v" "constructible d T"
    using read_back_after_write [OF b assms(2) short [OF b], where v = v and T = T]
      typed t unfolding b by blast
  have 3: "read_atomic T d = (Inr v, d\<lparr>d_offset := length (d_buffer d)\<rparr>)"
    if b: "d_buffer d = get_buffer (snd (write_atomic v s))" and t: "has_type T v" "constructible d T"
    using read_back_after_write [OF b assms(2) short [OF b], where v = v and T = T]
      atomic t unfolding b by blast
  have 4: "read_optional T d = (Inr val, d\<lparr>d_offset := length (d_buffer d)\<rparr>)"
    if b: "d_buffer d = get_buffer (snd (write_optional val s))"
      and t: "case val of None \<Rightarrow> True | Some v \<Rightarrow> has_type T v" "constructible d T"
    using read_back_after_write [OF b assms(2) short [OF b], where val = val and T = T]
      optional t unfolding b by blast
  have 5: "read_optional_factory T factory d = (Inr val, d\<lparr>d_offset := length (d_buffer d)\<rparr>)"
    if b: "d_buffer d = get_buffer (snd (write_optional val s))"
      and t: "case val of None \<Rightarrow> True | Some v \<Rightarrow> has_type T v"
    using read_back_after_write [OF b assms(2) short [OF b], where val = val and T = T
        and factory = factory]
      optional t unfolding b by blast
  have 6: "read_vector T d = (Inr vec, d\<lparr>d_offset := length (d_buffer d)\<rparr>)"
    if b: "d_buffer d = get_buffer (snd (write_vector vec s))"
      and t: "list_all (has_type T) vec" "constructible d T"
    using read_back_after_write [OF b assms(2) short [OF b], where vec = vec and T = T]
      vector t unfolding b by blast
  have 7: "read_list T d = (Inr vec, d\<lparr>d_offset := length (d_buffer d)\<rparr>)"
    if b: "d_buffer d = get_buffer (snd (write_list vec s))"
      and t: "list_all (has_type T) vec" "constructible d T"
    using read_back_after_write [OF b assms(2) short [OF b], where vec = vec and T = T]
      list t unfolding b by blast
  have 8: "read_map K V d = (Inr (map_of m), d\<lparr>d_offset := length (d_buffer d)\<rparr>)"
    if b: "d_buffer d = get_buffer (snd (write_map m s))"
      and t: "list_all (\<lambda>entry. has_type K (fst entry) \<and> has_type V (snd entry)) m"
        "distinct (map fst m)" "constructible d K" "constructible d V"
    using read_back_after_write [OF b assms(2) short [OF b], where m = m and K = K and V = V]
      map t unfolding b by blast
  from typed atomic optional vector list map 1 2 3 4 5 6 7 8 show ?thesis by blast
qed

theorem round_trip_witness:
  "fst (write_typed (String [[97], [98]]) new_serializer) = Inr () \<and>
   read_typed (T_string 1) (deserializer_of (snd (write_typed (String [[97], [98]]) new_serializer))) =
     (Inr (String [[97], [98]]),
      (deserializer_of (snd (write_typed (String [[97], [98]]) new_serializer)))
        \<lparr>d_offset := length (d_buffer (deserializer_of
            (snd (write_typed (String [[97], [98]]) new_serializer)) :: elem buffer_deserializer))\<rparr>) \<and>
   fst (write_map [(Boolean False, Trivial [7]), (Boolean True, Trivial [9])] new_serializer) = Inr () \<and>
   read_map T_bool (T_trivial ''uint8_t'' 1 True)
     (deserializer_of (snd (write_map [(Boolean False, Trivial [7]), (Boolean True, Trivial [9])]
        new_serializer))) =
     (Inr (map_of [(Boolean False, Trivial [7]), (Boolean True, Trivial [9])]),
      (deserializer_of (snd (write_map [(Boolean False, Trivial [7]), (Boolean True, Trivial [9])]
        new_serializer)))
        \<lparr>d_offset := length (d_buffer (deserializer_of
            (snd (write_map [(Boolean False, Trivial [7]), (Boolean True, Trivial [9])]
               new_serializer)) :: elem buffer_deserializer))\<rparr>) \<and>
   fst (write_vector [Trivial [7, 0, 0, 0]] new_serializer) = Inr () \<and>
   read_vector (T_trivial ''P'' 4 False)
     (register_factory (traits_of (T_trivial ''P'' 4 False)) (\<lambda>_. Trivial [0, 0, 0, 0])
        (deserializer_of (snd (write_vector [Trivial [7, 0, 0, 0]] new_serializer)))) =
     (Inr [Trivial [7, 0, 0, 0]],
      (register_factory (traits_of (T_trivial ''P'' 4 False)) (\<lambda>_. Trivial [0, 0, 0, 0])
        (deserializer_of (snd (write_vector [Trivial [7, 0, 0, 0]] new_serializer))))
        \<lparr>d_offset := length (d_buffer
            (register_factory (traits_of (T_trivial ''P'' 4 False)) (\<lambda>_. Trivial [0, 0, 0, 0])
               (deserializer_of (snd (write_vector [Trivial [7, 0, 0, 0]] new_serializer)))))\<rparr>)"
proof -
  let ?v = "String [[97], [98]]"
  let ?d = "deserializer_of (snd (write_typed ?v new_serializer)) :: elem buffer_deserializer"
  let ?m = "[(Boolean False, Trivial [7]), (Boolean True, Trivial [9])]"
  let ?d2 = "deserializer_of (snd (write_map ?m new_serializer)) :: elem buffer_deserializer"
  let ?P = "T_trivial ''P'' 4 False"
  let ?vec = "[Trivial [7, 0, 0, 0]]"
  let ?d3 = "register_factory (traits_of ?P) (\<lambda>_. Trivial [0, 0, 0, 0])
               (deserializer_of (snd (write_vector ?vec new_serializer)))"
  have w: "get_buffer (snd (write_typed ?v new_serializer)) = [8, 2, 0, 0, 0, 0, 0, 0, 0, 1, 97, 1, 98]"
    "get_buffer (snd (write_map ?m new_serializer)) = [8, 2, 0, 0, 0, 0, 0, 0, 0, 1, 0, 1, 7, 1, 1, 1, 9]"
    "get_buffer (snd (write_vector ?vec new_serializer)) = [8, 1, 0, 0, 0, 0, 0, 0, 0, 4, 7, 0, 0, 0]"
    by code_simp+
  have b: "d_buffer ?d = get_buffer (snd (write_typed ?v new_serializer))"
    "d_buffer ?d2 = get_buffer (snd (write_map ?m new_serializer))"
    "d_buffer ?d3 = get_buffer (snd (write_vector ?vec new_serializer))"
    by (simp_all add: deserializer_of_def deserializer_of_bytes_def register_factory_def)
  have o: "d_offset ?d = length (get_buffer new_serializer)"
    "d_offset ?d2 = length (get_buffer new_serializer)"
    "d_offset ?d3 = length (get_buffer new_serializer)"
    by (simp_all add: deserializer_of_def deserializer_of_bytes_def get_buffer_def
        new_serializer_def register_factory_def)
  have n: "length (d_buffer ?d) < 2 ^ 64" "length (d_buffer ?d2) < 2 ^ 64"
    "length (d_buffer ?d3) < 2 ^ 64"
    unfolding b w by simp_all
  have t: "has_type (T_string 1) ?v" "constructible ?d (T_string 1)"
    "list_all (\<lambda>entry. has_type T_bool (fst entry) \<and> has_type (T_trivial ''uint8_t'' 1 True) (snd entry)) ?m"
    "distinct (map fst ?m)" "constructible ?d2 T_bool" "constructible ?d2 (T_trivial ''uint8_t'' 1 True)"
    "list_all (has_type ?P) ?vec" "constructible ?d3 ?P"
    by (simp_all add: register_factory_def)
  note i = new_serializer_inactive
  from round_trip [OF i o(1) n(1), where v = ?v and T = "T_string 1"] b(1) t(1,2)
  have 1: "fst (write_typed ?v new_serializer) = Inr () \<and>
      read_typed (T_string 1) ?d = (Inr ?v, ?d\<lparr>d_offset := length (d_buffer ?d)\<rparr>)"
    by blast
  from round_trip [OF i o(2) n(2), where m = ?m and K = T_bool
      and V = "T_trivial ''uint8_t'' 1 True"] b(2) t(3-6)
  have 2: "fst (write_map ?m new_serializer) = Inr () \<and>
      read_map T_bool (T_trivial ''uint8_t'' 1 True) ?d2 =
      (Inr (map_of ?m), ?d2\<lparr>d_offset := length (d_buffer ?d2)\<rparr>)"
    by blast
  from round_trip [OF i o(3) n(3), where vec = ?vec and T = ?P] b(3) t(7,8)
  have 3: "fst (write_vector ?vec new_serializer) = Inr () \<and>
      read_vector ?P ?d3 = (Inr ?vec, ?d3\<lparr>d_offset := length (d_buffer ?d3)\<rparr>)"
    by blast
  from 1 2 3 show ?thesis by blast
qed

text \<open>
  Where the element type is not default constructible and has no factory, \<open>read<T>()\<close>
  stops in \<open>construct_object\<close>: the readers that construct their elements need the
  premise \<open>constructible\<close>.
\<close>

lemma read_typed_unconstructible:
  "d_factories d name = None \<Longrightarrow>
   read_typed (T_trivial name n False) d = (Inl (ConstructionError name), d)"
  by (simp add: read_typed_def read_object_def construct_object_def)

text \<open>
  C6. On an encoder with no break offset, \<open>write_optional\<close> of an absent value appends
  the one frame \<open>[1, 0]\<close>, and of a present value \<open>v\<close> the frame \<open>[1, 1]\<close> followed by
  the frames the typed write of \<open>v\<close> produces; an \<open>optional<int32_t>\<close> holding 7 gives
  \<open>[1, 1, 4, 7, 0, 0, 0]\<close>. \<open>read_optional\<close> over either encoding returns the optional
  that was written and moves the cursor to the end: the absent one for every payload
  type, the present one for a payload type the decoder can construct, and with the
  overload that takes a factory for every payload type.
\<close>

theorem optional_round_trip:
  assumes "s_break_offset s = None"
  shows "write_optional None s = (Inr (), s\<lparr>s_buffer := get_buffer s @ [1, 0]\<rparr>) \<and>
         write_optional (Some v) s =
           (Inr (), s\<lparr>s_buffer := get_buffer s @ [1, 1] @ get_buffer (snd (write_typed v new_serializer))\<rparr>) \<and>
         get_buffer (snd (write_optional (Some (Trivial (int32_repr 7))) new_serializer)) =
           [1, 1, 4, 7, 0, 0, 0] \<and>
         (d_buffer d = get_buffer (snd (write_optional None s)) \<and>
          d_offset d = length (get_buffer s) \<and> length (d_buffer d) < 2 ^ 64 \<longrightarrow>
            read_optional T d = (Inr None, d\<lparr>d_offset := length (d_buffer d)\<rparr>)) \<and>
         (d_buffer d = get_buffer (snd (write_optional (Some v) s)) \<and>
          d_offset d = length (get_buffer s) \<and> length (d_buffer d) < 2 ^ 64 \<and>
          has_type T v \<and> constructible d T \<longrightarrow>
            read_optional T d = (Inr (Some v), d\<lparr>d_offset := length (d_buffer d)\<rparr>)) \<and>
         (d_buffer d = get_buffer (snd (write_optional (Some v) s)) \<and>
          d_offset d = length (get_buffer s) \<and> length (d_buffer d) < 2 ^ 64 \<and> has_type T v \<longrightarrow>
            read_optional_factory T factory d =
              (Inr (Some v), d\<lparr>d_offset := length (d_buffer d)\<rparr>))"
proof -
  have i: "inactive s" using assms by (simp add: inactive_def)
  have none: "write_optional None s = (Inr (), s\<lparr>s_buffer := get_buffer s @ [1, 0]\<rparr>)"
    using appends_inactive [OF appends_write_optional i, of None]
    by (simp add: wire_optional_def frame_def get_buffer_def)
  have some: "write_optional (Some v) s =
      (Inr (), s\<lparr>s_buffer := get_buffer s @ [1, 1] @ get_buffer (snd (write_typed v new_serializer))\<rparr>)"
    using appends_inactive [OF appends_write_optional i, of "Some v"]
    by (simp add: wire_optional_def frame_def get_buffer_def write_typed_new)
  have ex: "get_buffer (snd (write_optional (Some (Trivial (int32_repr 7))) new_serializer)) =
      [1, 1, 4, 7, 0, 0, 0]"
    by code_simp
  have rn: "read_optional T d = (Inr None, d\<lparr>d_offset := length (d_buffer d)\<rparr>)"
    if "d_buffer d = get_buffer (snd (write_optional None s))"
      "d_offset d = length (get_buffer s)" "length (d_buffer d) < 2 ^ 64"
  proof -
    have b: "d_buffer d = get_buffer s @ wire_optional None @ []"
      using that(1) by (simp add: none wire_optional_def frame_def get_buffer_def)
    have "read_optional T d =
        (Inr None, d\<lparr>d_offset := length (get_buffer s) + length (wire_optional None)\<rparr>)"
      by (rule read_optional_none_wire) (use b that in simp_all)
    then show ?thesis by (simp add: b)
  qed
  have rs: "read_optional T d = (Inr (Some v), d\<lparr>d_offset := length (d_buffer d)\<rparr>)"
    if "d_buffer d = get_buffer (snd (write_optional (Some v) s))"
      "d_offset d = length (get_buffer s)" "length (d_buffer d) < 2 ^ 64"
      "has_type T v" "constructible d T"
  proof -
    have b: "d_buffer d = get_buffer s @ wire_optional (Some v) @ []"
      using that(1) by (simp add: some wire_optional_def frame_def get_buffer_def write_typed_new)
    have "read_optional T d =
        (Inr (Some v), d\<lparr>d_offset := length (get_buffer s) + length (wire_optional (Some v))\<rparr>)"
      by (rule read_optional_wire) (use b that in simp_all)
    then show ?thesis by (simp add: b)
  qed
  have rf: "read_optional_factory T factory d = (Inr (Some v), d\<lparr>d_offset := length (d_buffer d)\<rparr>)"
    if "d_buffer d = get_buffer (snd (write_optional (Some v) s))"
      "d_offset d = length (get_buffer s)" "length (d_buffer d) < 2 ^ 64" "has_type T v"
  proof -
    have b: "d_buffer d = get_buffer s @ wire_optional (Some v) @ []"
      using that(1) by (simp add: some wire_optional_def frame_def get_buffer_def write_typed_new)
    have "read_optional_factory T factory d =
        (Inr (Some v), d\<lparr>d_offset := length (get_buffer s) + length (wire_optional (Some v))\<rparr>)"
      by (rule read_optional_factory_wire) (use b that in simp_all)
    then show ?thesis by (simp add: b)
  qed
  from none some ex rn rs rf show ?thesis by blast
qed

theorem optional_round_trip_witness:
  "read_optional (T_trivial ''int32_t'' 4 True)
     (deserializer_of_bytes [1, 1, 4, 7, 0, 0, 0]) =
     (Inr (Some (Trivial [7, 0, 0, 0])),
      (deserializer_of_bytes [1, 1, 4, 7, 0, 0, 0])
        \<lparr>d_offset := length (d_buffer (deserializer_of_bytes [1, 1, 4, 7, 0, 0, 0] :: elem buffer_deserializer))\<rparr>) \<and>
   read_optional (T_trivial ''int32_t'' 4 True)
     (deserializer_of_bytes [1, 0]) =
     (Inr None,
      (deserializer_of_bytes [1, 0])
        \<lparr>d_offset := length (d_buffer (deserializer_of_bytes [1, 0] :: elem buffer_deserializer))\<rparr>)"
proof -
  let ?T = "T_trivial ''int32_t'' 4 True"
  let ?v = "Trivial [7, 0, 0, 0]"
  let ?d = "deserializer_of_bytes [1, 1, 4, 7, 0, 0, 0] :: elem buffer_deserializer"
  let ?e = "deserializer_of_bytes [1, 0] :: elem buffer_deserializer"
  have s: "s_break_offset new_serializer = None" by (simp add: new_serializer_def)
  have w: "get_buffer (snd (write_optional (Some ?v) new_serializer)) = [1, 1, 4, 7, 0, 0, 0]"
    "get_buffer (snd (write_optional None new_serializer)) = [1, 0]"
    by code_simp+
  have h: "d_buffer ?d = get_buffer (snd (write_optional (Some ?v) new_serializer)) \<and>
      d_offset ?d = length (get_buffer new_serializer) \<and> length (d_buffer ?d) < 2 ^ 64 \<and>
      has_type ?T ?v \<and> constructible ?d ?T"
    unfolding w by (simp add: deserializer_of_bytes_def get_buffer_def new_serializer_def)
  have g: "d_buffer ?e = get_buffer (snd (write_optional None new_serializer)) \<and>
      d_offset ?e = length (get_buffer new_serializer) \<and> length (d_buffer ?e) < 2 ^ 64"
    unfolding w by (simp add: deserializer_of_bytes_def get_buffer_def new_serializer_def)
  from optional_round_trip [OF s, where d = ?d and v = ?v and T = ?T] h
  have 1: "read_optional ?T ?d = (Inr (Some ?v), ?d\<lparr>d_offset := length (d_buffer ?d)\<rparr>)" by blast
  from optional_round_trip [OF s, where d = ?e and T = ?T] g
  have 2: "read_optional ?T ?e = (Inr None, ?e\<lparr>d_offset := length (d_buffer ?e)\<rparr>)" by blast
  from 1 2 show ?thesis by (rule conjI)
qed

end
